theory Spec2Isabelle
  imports Main "HOL-Library.Word"
begin

section \<open>The chat request parser of pinnedContextContextKeys.ts\<close>

text \<open>
  The source is TypeScript. A string is a sequence of UTF-16 code units, addressed by
  index; \<open>length\<close>, \<open>charAt\<close>, \<open>slice\<close> and the regular expressions all count
  code units. A message is therefore a list of 16-bit words. \<open>str\<close> reads an ASCII
  literal as such a list.
\<close>

type_synonym code_unit = "16 word"
type_synonym jsstring = "code_unit list"

definition str :: "string \<Rightarrow> jsstring" where
  "str s = map of_char s"

subsection \<open>Character classes of the regular expressions\<close>

definition isDigit :: "code_unit \<Rightarrow> bool" where
  \<comment> \<open>\<open>\d\<close>: 0-9\<close>
  "isDigit c = (48 \<le> c \<and> c \<le> 57)"

definition isWordChar :: "code_unit \<Rightarrow> bool" where
  \<comment> \<open>\<open>\w\<close>: A-Z, a-z, 0-9 and the underscore (the flag i adds nothing without the flag u)\<close>
  "isWordChar c = ((65 \<le> c \<and> c \<le> 90) \<or> (97 \<le> c \<and> c \<le> 122) \<or> isDigit c \<or> c = 95)"

definition isNameChar :: "code_unit \<Rightarrow> bool" where
  \<comment> \<open>the class \<open>[\w_\-]\<close>\<close>
  "isNameChar c = (isWordChar c \<or> c = 95 \<or> c = 45)"

definition isArgChar :: "code_unit \<Rightarrow> bool" where
  \<comment> \<open>the class \<open>[\w_\-\.]\<close>\<close>
  "isArgChar c = (isWordChar c \<or> c = 95 \<or> c = 45 \<or> c = 46)"

definition isSpace :: "code_unit \<Rightarrow> bool" where
  \<comment> \<open>\<open>\s\<close>, which is also what \<open>trim\<close> strips: ECMAScript WhiteSpace and LineTerminator\<close>
  "isSpace c = (c = 9 \<or> c = 10 \<or> c = 11 \<or> c = 12 \<or> c = 13 \<or> c = 32 \<or> c = 160
     \<or> c = 5760 \<or> (8192 \<le> c \<and> c \<le> 8202) \<or> c = 8232 \<or> c = 8233 \<or> c = 8239
     \<or> c = 8287 \<or> c = 12288 \<or> c = 65279)"

text \<open>
  Modelled from the spec: the three leader constants, which the parser imports from
  csChatParserTypes. The spec names the leader characters !, # and /, the characters the
  patterns \<open>agentReg\<close>, \<open>variableReg\<close> and \<open>slashReg\<close> begin with.
\<close>

definition chatAgentLeader :: code_unit where
  \<comment> \<open>Modelled from the spec: the leader of an agent mention, the character !\<close>
  "chatAgentLeader = 33"

definition chatFileVariableLeader :: code_unit where
  \<comment> \<open>Modelled from the spec: the leader of a variable or file reference, the character #\<close>
  "chatFileVariableLeader = 35"

definition chatSubcommandLeader :: code_unit where
  \<comment> \<open>Modelled from the spec: the leader of a slash command, the character /\<close>
  "chatSubcommandLeader = 47"

subsection \<open>String operations\<close>

definition slice :: "jsstring \<Rightarrow> nat \<Rightarrow> nat \<Rightarrow> jsstring" where
  \<comment> \<open>\<open>s.slice(a, b)\<close> for non-negative a and b: the units from a up to b, none when b is not after a\<close>
  "slice s a b = drop a (take b s)"

definition trim :: "jsstring \<Rightarrow> jsstring" where
  "trim s = rev (dropWhile isSpace (rev (dropWhile isSpace s)))"

subsection \<open>Regular expression matching\<close>

text \<open>
  Each of the four patterns ends in the lookahead \<open>(?=(\s|$|\b))\<close>. At index k of the
  subject s it holds when s has a white space unit at k, or k is the end of s, or k is a
  word boundary: exactly one of the units before and at k is a word character (what lies
  outside s counts as no word character).
\<close>

definition wordAt :: "jsstring \<Rightarrow> nat \<Rightarrow> bool" where
  "wordAt s k = (k < length s \<and> isWordChar (s ! k))"

definition wordBoundary :: "jsstring \<Rightarrow> nat \<Rightarrow> bool" where
  "wordBoundary s k = ((0 < k \<and> wordAt s (k - 1)) \<noteq> wordAt s k)"

definition lookahead :: "jsstring \<Rightarrow> nat \<Rightarrow> bool" where
  "lookahead s k = ((k < length s \<and> isSpace (s ! k)) \<or> k = length s \<or> wordBoundary s k)"

text \<open>
  A greedy quantifier takes as many units as it can and gives them back one at a time
  while the rest of the pattern fails: \<open>greedy lo n rest\<close> tries the counts n, n - 1,
  ..., lo in this order and returns the first result of \<open>rest\<close>.
\<close>

fun greedy :: "nat \<Rightarrow> nat \<Rightarrow> (nat \<Rightarrow> 'a option) \<Rightarrow> 'a option" where
  "greedy lo 0 rest = (if lo = 0 then rest 0 else None)"
| "greedy lo (Suc k) rest =
     (if Suc k < lo then None
      else case rest (Suc k) of Some r \<Rightarrow> Some r | None \<Rightarrow> greedy lo k rest)"

definition run :: "(code_unit \<Rightarrow> bool) \<Rightarrow> jsstring \<Rightarrow> nat \<Rightarrow> nat" where
  \<comment> \<open>how many units of s from index p on belong to the class\<close>
  "run cls s p = length (takeWhile cls (drop p s))"

fun firstMatch :: "(nat \<Rightarrow> 'a option) \<Rightarrow> nat list \<Rightarrow> 'a option" where
  \<comment> \<open>a pattern without \<open>^\<close> is tried at each start index in turn\<close>
  "firstMatch f [] = None"
| "firstMatch f (t # ts) = (case f t of Some r \<Rightarrow> Some r | None \<Rightarrow> firstMatch f ts)"

text \<open>
  A match is the matched text followed by its capture groups; a group that took no part
  in the match is \<open>None\<close> (\<open>undefined\<close> in the source).
\<close>

definition agentAt :: "jsstring \<Rightarrow> nat \<Rightarrow> (jsstring \<times> jsstring) option" where
  \<comment> \<open>\<open>!([\w_\-]*)(?=(\s|$|\b))\<close> started at index t\<close>
  "agentAt s t =
     (if t < length s \<and> s ! t = 33 then
        greedy 0 (run isNameChar s (t + 1))
          (\<lambda>k. if lookahead s (t + 1 + k)
               then Some (slice s t (t + 1 + k), slice s (t + 1) (t + 1 + k)) else None)
      else None)"

definition agentReg :: "jsstring \<Rightarrow> (jsstring \<times> jsstring) option" where
  \<comment> \<open>\<open>/^!([\w_\-]*)(?=(\s|$|\b))/i\<close>\<close>
  "agentReg s = agentAt s 0"

definition variableAt :: "jsstring \<Rightarrow> nat \<Rightarrow> (jsstring \<times> jsstring \<times> jsstring option) option" where
  \<comment> \<open>\<open>#([\w_\-]+)(:\d+)?(?=(\s|$|\b))\<close> started at index t\<close>
  "variableAt s t =
     (if t < length s \<and> s ! t = 35 then
        greedy 1 (run isNameChar s (t + 1))
          (\<lambda>k. let p = t + 1 + k; name = slice s (t + 1) p in
             case (if p < length s \<and> s ! p = 58 then
                     greedy 1 (run isDigit s (p + 1))
                       (\<lambda>j. if lookahead s (p + 1 + j)
                            then Some (slice s t (p + 1 + j), name, Some (slice s p (p + 1 + j)))
                            else None)
                   else None) of
               Some m \<Rightarrow> Some m
             | None \<Rightarrow> if lookahead s p then Some (slice s t p, name, None) else None)
      else None)"

definition variableReg :: "jsstring \<Rightarrow> (jsstring \<times> jsstring \<times> jsstring option) option" where
  \<comment> \<open>\<open>/^#([\w_\-]+)(:\d+)?(?=(\s|$|\b))/i\<close>\<close>
  "variableReg s = variableAt s 0"

definition slashAt :: "jsstring \<Rightarrow> nat \<Rightarrow> (jsstring \<times> jsstring) option" where
  \<comment> \<open>\<open>\/([\w_\-]+)(?=(\s|$|\b))\<close> started at index t\<close>
  "slashAt s t =
     (if t < length s \<and> s ! t = 47 then
        greedy 1 (run isNameChar s (t + 1))
          (\<lambda>k. if lookahead s (t + 1 + k)
               then Some (slice s t (t + 1 + k), slice s (t + 1) (t + 1 + k)) else None)
      else None)"

definition slashReg :: "jsstring \<Rightarrow> (jsstring \<times> jsstring) option" where
  \<comment> \<open>\<open>/\/([\w_\-]+)(?=(\s|$|\b))/i\<close>: no \<open>^\<close>, the first start index that matches wins\<close>
  "slashReg s = firstMatch (slashAt s) [0..<length s]"

definition variableWithArgAt :: "jsstring \<Rightarrow> nat \<Rightarrow> (jsstring \<times> jsstring \<times> jsstring) option" where
  \<comment> \<open>\<open>\#([\w_\-]+):([\w_\-\.]+)(?=(\s|$|\b))\<close> started at index t\<close>
  "variableWithArgAt s t =
     (if t < length s \<and> s ! t = 35 then
        greedy 1 (run isNameChar s (t + 1))
          (\<lambda>k. let p = t + 1 + k in
             if p < length s \<and> s ! p = 58 then
               greedy 1 (run isArgChar s (p + 1))
                 (\<lambda>j. if lookahead s (p + 1 + j)
                      then Some (slice s t (p + 1 + j), slice s (t + 1) p, slice s (p + 1) (p + 1 + j))
                      else None)
             else None)
      else None)"

definition variableWithArgReg :: "jsstring \<Rightarrow> (jsstring \<times> jsstring \<times> jsstring) option" where
  \<comment> \<open>\<open>/\#([\w_\-]+):([\w_\-\.]+)(?=(\s|$|\b))/i\<close>: no \<open>^\<close> either\<close>
  "variableWithArgReg s = firstMatch (variableWithArgAt s) [0..<length s]"

subsection \<open>Data model\<close>

text \<open>
  Modelled from the spec: \<open>OffsetRange\<close>, \<open>Range\<close>, \<open>Position\<close>, the six part classes
  and the three services, which the parser imports from other modules. A range and a part
  are the values their constructor is given, as the parser passes them; the part classes
  do not extend one another, so \<open>instanceof\<close> is a test on the constructor. A service
  answers the same during one call of the parser. An error is whatever a rejected promise
  carries.
\<close>

datatype offset_range = OffsetRange (start: nat) (endExclusive: nat)

datatype position = Position (positionLine: nat) (positionColumn: nat)

datatype editor_range =
  EditorRange (startLineNumber: nat) (startColumn: nat) (endLineNumber: nat) (endColumn: nat)

datatype error = Error jsstring

datatype agent_command = AgentCommand (commandName: jsstring) (commandDescription: jsstring)

datatype chat_agent =
  ChatAgent (agentId: jsstring) (provideSlashCommands: "error + agent_command list")

datatype slash_data = SlashData (command: jsstring) (detail: jsstring)

datatype 'd dynamic_reference = DynamicReference (referenceRange: editor_range) (referenceData: 'd)

datatype 'd part =
    ChatRequestTextPart offset_range editor_range jsstring
  | ChatRequestVariablePart offset_range editor_range jsstring jsstring
  | ChatRequestDynamicReferencePart offset_range editor_range jsstring jsstring 'd
  | ChatRequestAgentPart offset_range editor_range chat_agent
  | ChatRequestAgentSubcommandPart offset_range editor_range agent_command
  | ChatRequestSlashCommandPart offset_range editor_range slash_data

fun partRange :: "'d part \<Rightarrow> offset_range" where
  "partRange (ChatRequestTextPart r e t) = r"
| "partRange (ChatRequestVariablePart r e n a) = r"
| "partRange (ChatRequestDynamicReferencePart r e n a d) = r"
| "partRange (ChatRequestAgentPart r e g) = r"
| "partRange (ChatRequestAgentSubcommandPart r e c) = r"
| "partRange (ChatRequestSlashCommandPart r e c) = r"

fun partEditorRange :: "'d part \<Rightarrow> editor_range" where
  "partEditorRange (ChatRequestTextPart r e t) = e"
| "partEditorRange (ChatRequestVariablePart r e n a) = e"
| "partEditorRange (ChatRequestDynamicReferencePart r e n a d) = e"
| "partEditorRange (ChatRequestAgentPart r e g) = e"
| "partEditorRange (ChatRequestAgentSubcommandPart r e c) = e"
| "partEditorRange (ChatRequestSlashCommandPart r e c) = e"

fun isTextPart :: "'d part \<Rightarrow> bool" where
  "isTextPart (ChatRequestTextPart r e t) = True"
| "isTextPart p = False"

fun isAgentPart :: "'d part \<Rightarrow> bool" where
  "isAgentPart (ChatRequestAgentPart r e g) = True"
| "isAgentPart p = False"

fun isSlashCommandPart :: "'d part \<Rightarrow> bool" where
  "isSlashCommandPart (ChatRequestSlashCommandPart r e c) = True"
| "isSlashCommandPart p = False"

fun isAgentSubcommandPart :: "'d part \<Rightarrow> bool" where
  "isAgentSubcommandPart (ChatRequestAgentSubcommandPart r e c) = True"
| "isAgentSubcommandPart p = False"

fun isDynamicReferencePart :: "'d part \<Rightarrow> bool" where
  "isDynamicReferencePart (ChatRequestDynamicReferencePart r e n a d) = True"
| "isDynamicReferencePart p = False"

fun nonBlankText :: "'d part \<Rightarrow> bool" where
  \<comment> \<open>\<open>p instanceof ChatRequestTextPart && p.text.trim() !== ''\<close>\<close>
  "nonBlankText (ChatRequestTextPart r e t) = (trim t \<noteq> [])"
| "nonBlankText p = False"

definition atLast :: "'a list \<Rightarrow> 'a option" where
  \<comment> \<open>\<open>parts.at(-1)\<close>\<close>
  "atLast xs = (if xs = [] then None else Some (last xs))"

definition previousEnd :: "'d part list \<Rightarrow> nat" where
  \<comment> \<open>\<open>parts.at(-1)?.range.endExclusive ?? 0\<close>\<close>
  "previousEnd parts = (case atLast parts of None \<Rightarrow> 0 | Some p \<Rightarrow> endExclusive (partRange p))"

record 'd services =
  getAgent :: "jsstring \<Rightarrow> chat_agent option"
  hasVariable :: "jsstring \<Rightarrow> bool"
  getCommands :: "slash_data list"
  getDynamicReferences :: "jsstring \<Rightarrow> 'd dynamic_reference list"

datatype 'd parsed_chat_request = ParsedChatRequest (parsedParts: "'d part list") (parsedText: jsstring)

subsection \<open>The four matchers\<close>

definition tryToParseAgent ::
  "('d, 'x) services_scheme \<Rightarrow> jsstring \<Rightarrow> jsstring \<Rightarrow> nat \<Rightarrow> position \<Rightarrow> 'd part list \<Rightarrow> 'd part option" where
  "tryToParseAgent svc message fullMessage offset pos parts =
     (case agentReg message of
        None \<Rightarrow> None
      | Some (full, name) \<Rightarrow>
          let varRange = OffsetRange offset (offset + length full);
              varEditorRange = EditorRange (positionLine pos) (positionColumn pos)
                                 (positionLine pos) (positionColumn pos + length full)
          in (case getAgent svc name of
                None \<Rightarrow> None
              | Some agent \<Rightarrow>
                  if list_ex isAgentPart parts then None
                  else if list_ex (\<lambda>p. nonBlankText p \<or> \<not> isAgentPart p) parts then None
                  else let textSincePreviousPart = slice fullMessage (previousEnd parts) offset
                       in if trim textSincePreviousPart \<noteq> [] then None
                          else Some (ChatRequestAgentPart varRange varEditorRange agent)))"

definition tryToParseVariable ::
  "('d, 'x) services_scheme \<Rightarrow> jsstring \<Rightarrow> nat \<Rightarrow> position \<Rightarrow> 'd part list \<Rightarrow> 'd part option" where
  "tryToParseVariable svc message offset pos parts =
     (case variableReg message of
        None \<Rightarrow> None
      | Some (full, name, arg) \<Rightarrow>
          let variableArg = (case arg of None \<Rightarrow> [] | Some a \<Rightarrow> a);
              varRange = OffsetRange offset (offset + length full);
              varEditorRange = EditorRange (positionLine pos) (positionColumn pos)
                                 (positionLine pos) (positionColumn pos + length full)
          in if hasVariable svc name
             then Some (ChatRequestVariablePart varRange varEditorRange name variableArg)
             else None)"

definition tryToParseSlashCommand ::
  "('d, 'x) services_scheme \<Rightarrow> jsstring \<Rightarrow> jsstring \<Rightarrow> nat \<Rightarrow> position \<Rightarrow> 'd part list
     \<Rightarrow> error + 'd part option" where
  \<comment> \<open>the awaited call is the one place that can reject; nothing catches it\<close>
  "tryToParseSlashCommand svc remainingMessage fullMessage offset pos parts =
     (case slashReg remainingMessage of
        None \<Rightarrow> Inr None
      | Some (full, cmd) \<Rightarrow>
          if list_ex isSlashCommandPart parts then Inr None
          else
            let slashRange = OffsetRange offset (offset + length full);
                slashEditorRange = EditorRange (positionLine pos) (positionColumn pos)
                                     (positionLine pos) (positionColumn pos + length full)
            in (case find isAgentPart parts of
                 Some (ChatRequestAgentPart r e agent) \<Rightarrow>
                   if list_ex (\<lambda>p. nonBlankText p \<or> (\<not> isAgentPart p \<and> \<not> isTextPart p)) parts
                   then Inr None
                   else let textSincePreviousPart = slice fullMessage (previousEnd parts) offset
                        in if trim textSincePreviousPart \<noteq> [] then Inr None
                           else (case provideSlashCommands agent of
                                   Inl err \<Rightarrow> Inl err
                                 | Inr subCommands \<Rightarrow>
                                     (case find (\<lambda>c. commandName c = cmd) subCommands of
                                        Some subCommand \<Rightarrow>
                                          Inr (Some (ChatRequestAgentSubcommandPart slashRange slashEditorRange subCommand))
                                      | None \<Rightarrow> Inr None))
               | _ \<Rightarrow>
                   (case find (\<lambda>c. command c = cmd) (getCommands svc) of
                      Some slashCommand \<Rightarrow>
                        Inr (Some (ChatRequestSlashCommandPart slashRange slashEditorRange slashCommand))
                    | None \<Rightarrow> Inr None)))"

definition tryToParseDynamicVariable ::
  "jsstring \<Rightarrow> nat \<Rightarrow> position \<Rightarrow> 'd dynamic_reference list \<Rightarrow> 'd part option" where
  "tryToParseDynamicVariable message offset pos references =
     (case variableWithArgReg message of
        None \<Rightarrow> None
      | Some (full, name, arg) \<Rightarrow>
          let refRange = OffsetRange offset (offset + length full);
              refEditorRange = EditorRange (positionLine pos) (positionColumn pos)
                                 (positionLine pos) (positionColumn pos + length full)
          in (case find (\<lambda>r. startLineNumber (referenceRange r) = positionLine pos
                             \<and> startColumn (referenceRange r) = positionColumn pos) references of
                Some refAtThisPosition \<Rightarrow>
                  Some (ChatRequestDynamicReferencePart refRange refEditorRange name arg
                          (referenceData refAtThisPosition))
              | None \<Rightarrow> None))"

subsection \<open>The scanner\<close>

definition newPartAt ::
  "('d, 'x) services_scheme \<Rightarrow> 'd dynamic_reference list \<Rightarrow> jsstring \<Rightarrow> nat \<Rightarrow> nat \<Rightarrow> nat
     \<Rightarrow> 'd part list \<Rightarrow> error + 'd part option" where
  \<comment> \<open>lines 42 to 55: the gate on the previous character, then one matcher family by leader\<close>
  "newPartAt svc references message i lineNumber column parts =
     (let char = message ! i in
      if i = 0 \<or> isSpace (message ! (i - 1)) then
        if char = chatFileVariableLeader then
          (case tryToParseVariable svc (drop i message) i (Position lineNumber column) parts of
             Some p \<Rightarrow> Inr (Some p)
           | None \<Rightarrow> Inr (tryToParseDynamicVariable (drop i message) i (Position lineNumber column) references))
        else if char = chatAgentLeader then
          Inr (tryToParseAgent svc (drop i message) message i (Position lineNumber column) parts)
        else if char = chatSubcommandLeader then
          tryToParseSlashCommand svc (drop i message) message i (Position lineNumber column) parts
        else Inr None
      else Inr None)"

definition textBefore :: "jsstring \<Rightarrow> nat \<Rightarrow> nat \<Rightarrow> nat \<Rightarrow> 'd part list \<Rightarrow> 'd part" where
  \<comment> \<open>lines 60 to 67 and 81 to 87: the text part from the end of the last part up to offset i\<close>
  "textBefore message i lineNumber column parts =
     ChatRequestTextPart
       (OffsetRange (previousEnd parts) i)
       (EditorRange
          (case atLast parts of None \<Rightarrow> 1 | Some p \<Rightarrow> endLineNumber (partEditorRange p))
          (case atLast parts of None \<Rightarrow> 1 | Some p \<Rightarrow> endColumn (partEditorRange p))
          lineNumber column)
       (slice message (previousEnd parts) i)"

definition pushNewPart :: "jsstring \<Rightarrow> nat \<Rightarrow> nat \<Rightarrow> nat \<Rightarrow> 'd part list \<Rightarrow> 'd part option \<Rightarrow> 'd part list" where
  \<comment> \<open>lines 57 to 71\<close>
  "pushNewPart message i lineNumber column parts newPart =
     (case newPart of
        None \<Rightarrow> parts
      | Some p \<Rightarrow>
          (if i \<noteq> 0 then parts @ [textBefore message i lineNumber column parts] else parts) @ [p])"

function parseLoop ::
  "('d, 'x) services_scheme \<Rightarrow> 'd dynamic_reference list \<Rightarrow> jsstring \<Rightarrow> nat \<Rightarrow> nat \<Rightarrow> nat
     \<Rightarrow> 'd part list \<Rightarrow> error + ('d part list \<times> nat \<times> nat)" where
  "parseLoop svc references message i lineNumber column parts =
     (if i < length message then
        (case newPartAt svc references message i lineNumber column parts of
           Inl err \<Rightarrow> Inl err
         | Inr newPart \<Rightarrow>
             if message ! i = 10
             then parseLoop svc references message (i + 1) (lineNumber + 1) 1
                    (pushNewPart message i lineNumber column parts newPart)
             else parseLoop svc references message (i + 1) lineNumber (column + 1)
                    (pushNewPart message i lineNumber column parts newPart))
      else Inr (parts, lineNumber, column))"
  by pat_completeness auto
termination
  by (relation "measure (\<lambda>(svc, references, message, i, lineNumber, column, parts). length message - i)") auto

declare parseLoop.simps [simp del]

definition parseChatRequest ::
  "('d, 'x) services_scheme \<Rightarrow> jsstring \<Rightarrow> jsstring \<Rightarrow> error + 'd parsed_chat_request" where
  "parseChatRequest svc sessionId message =
     (let references = getDynamicReferences svc sessionId in
      case parseLoop svc references message 0 1 1 [] of
        Inl err \<Rightarrow> Inl err
      | Inr (parts, lineNumber, column) \<Rightarrow>
          Inr (ParsedChatRequest
                 (if previousEnd parts < length message
                  then parts @ [textBefore message (length message) lineNumber column parts]
                  else parts)
                 message))"

subsection \<open>The loop, iteration by iteration\<close>

text \<open>
  \<open>scanTo svc references message n\<close> is the state of the loop of \<open>parseChatRequest\<close>
  when it has run for the offsets below n: the parts pushed so far with the line and
  column counters, or the error that ended the call.
\<close>

fun scanTo ::
  "('d, 'x) services_scheme \<Rightarrow> 'd dynamic_reference list \<Rightarrow> jsstring \<Rightarrow> nat
     \<Rightarrow> error + ('d part list \<times> nat \<times> nat)" where
  "scanTo svc references message 0 = Inr ([], 1, 1)"
| "scanTo svc references message (Suc n) =
     (case scanTo svc references message n of
        Inl err \<Rightarrow> Inl err
      | Inr (parts, lineNumber, column) \<Rightarrow>
          (case newPartAt svc references message n lineNumber column parts of
             Inl err \<Rightarrow> Inl err
           | Inr newPart \<Rightarrow>
               Inr (pushNewPart message n lineNumber column parts newPart,
                    if message ! n = 10 then lineNumber + 1 else lineNumber,
                    if message ! n = 10 then 1 else column + 1)))"

subsection \<open>Properties of a parse result\<close>

definition covered :: "jsstring \<Rightarrow> 'd part \<Rightarrow> jsstring" where
  \<comment> \<open>the substring of the message that a part's offset range covers\<close>
  "covered message p = slice message (start (partRange p)) (endExclusive (partRange p))"

fun contiguousFrom :: "nat \<Rightarrow> 'd part list \<Rightarrow> nat \<Rightarrow> bool" where
  \<comment> \<open>each part starts where the one before ends, from offset a up to offset b\<close>
  "contiguousFrom a [] b = (a = b)"
| "contiguousFrom a (p # ps) b =
     (start (partRange p) = a \<and> a \<le> endExclusive (partRange p)
      \<and> contiguousFrom (endExclusive (partRange p)) ps b)"

definition startsIncreasing :: "'d part list \<Rightarrow> bool" where
  "startsIncreasing parts = sorted_wrt (<) (map (\<lambda>p. start (partRange p)) parts)"

definition isCommandPart :: "'d part \<Rightarrow> bool" where
  \<comment> \<open>a SlashCommand or an AgentSubcommand segment\<close>
  "isCommandPart p = (isSlashCommandPart p \<or> isAgentSubcommandPart p)"

definition isLeader :: "code_unit \<Rightarrow> bool" where
  "isLeader c = (c = chatAgentLeader \<or> c = chatFileVariableLeader \<or> c = chatSubcommandLeader)"

definition startsAt :: "nat \<Rightarrow> 'd part \<Rightarrow> bool" where
  "startsAt i p = (start (partRange p) = i)"

definition coveredByText :: "'d part list \<Rightarrow> nat \<Rightarrow> bool" where
  \<comment> \<open>offset i lies in the range of a Text part\<close>
  "coveredByText parts i =
     list_ex (\<lambda>p. isTextPart p \<and> start (partRange p) \<le> i \<and> i < endExclusive (partRange p)) parts"

fun variableArgs :: "'d part list \<Rightarrow> jsstring list" where
  \<comment> \<open>the \<open>variableArg\<close> of each Variable part, in order\<close>
  "variableArgs [] = []"
| "variableArgs (ChatRequestVariablePart r e n a # ps) = a # variableArgs ps"
| "variableArgs (p # ps) = variableArgs ps"

definition oneOfEach :: "'d part list \<Rightarrow> bool" where
  \<comment> \<open>the loop invariant behind the bound on agents and commands\<close>
  "oneOfEach ps =
     (length (filter isAgentPart ps) \<le> 1 \<and> length (filter isCommandPart ps) \<le> 1
      \<and> (list_ex isAgentSubcommandPart ps \<longrightarrow> list_ex isAgentPart ps))"

definition solid :: "jsstring \<Rightarrow> nat \<Rightarrow> nat \<Rightarrow> bool" where
  \<comment> \<open>the n units of s from index t on exist, n is not 0, and none of them is white space\<close>
  "solid s t n = (1 \<le> n \<and> t + n \<le> length s \<and> (\<forall>i<n. \<not> isSpace (s ! (t + i))))"

definition clean :: "'d part list \<Rightarrow> bool" where
  \<comment> \<open>no part comes from \<open>slashReg\<close> or \<open>variableWithArgReg\<close>, the patterns without \<open>^\<close>\<close>
  "clean ps = (\<not> list_ex (\<lambda>p. isCommandPart p \<or> isDynamicReferencePart p) ps)"

definition tiled :: "jsstring \<Rightarrow> nat \<Rightarrow> 'd part list \<Rightarrow> bool" where
  \<comment> \<open>the loop invariant behind the tiling, when the loop is at offset j\<close>
  "tiled msg j ps =
     (contiguousFrom 0 ps (previousEnd ps)
      \<and> (\<forall>p\<in>set ps. start (partRange p) < endExclusive (partRange p))
      \<and> previousEnd ps \<le> length msg
      \<and> (j = 0 \<longrightarrow> ps = [])
      \<and> (\<forall>k. j \<le> Suc k \<and> k < previousEnd ps \<longrightarrow> \<not> isSpace (msg ! k)))"

subsection \<open>Services used in the examples\<close>

definition agentX :: chat_agent where
  "agentX = ChatAgent (str ''agentX'') (Inr [AgentCommand (str ''sub'') (str ''a sub-command'')])"

definition agentDown :: chat_agent where
  \<comment> \<open>an agent whose sub-command enumeration rejects\<close>
  "agentDown = ChatAgent (str ''down'') (Inl (Error (str ''unavailable'')))"

definition exampleServices :: "nat services" where
  "exampleServices =
     \<lparr> getAgent = (\<lambda>name. if name = str ''agentX'' then Some agentX
                          else if name = str ''down'' then Some agentDown else None),
       hasVariable = (\<lambda>name. name = str ''myvar'' \<or> name = str ''v''),
       getCommands = [SlashData (str ''standalone'') [], SlashData (str ''a'') [],
                      SlashData (str ''foo'') []],
       getDynamicReferences = (\<lambda>sessionId. [DynamicReference (EditorRange 1 1 1 13) 7]) \<rparr>"

section \<open>Lemmas\<close>

subsection \<open>Lists and strings\<close>

lemma find_SomeD: "find P xs = Some x \<Longrightarrow> P x \<and> x \<in> set xs"
  by (induction xs) (auto split: if_splits)

lemma find_agent_None: "find isAgentPart parts = None \<Longrightarrow> \<not> list_ex isAgentPart parts"
  by (simp add: find_None_iff list_ex_iff)

lemma trim_empty_iff: "trim s = [] \<longleftrightarrow> (\<forall>x\<in>set s. isSpace x)"
proof -
  have "(\<forall>x\<in>set (dropWhile isSpace s). isSpace x) \<longleftrightarrow> dropWhile isSpace s = []"
  proof
    assume a: "\<forall>x\<in>set (dropWhile isSpace s). isSpace x"
    show "dropWhile isSpace s = []"
    proof (rule ccontr)
      assume n: "dropWhile isSpace s \<noteq> []"
      then have "\<not> isSpace (hd (dropWhile isSpace s))" by (rule hd_dropWhile)
      moreover have "hd (dropWhile isSpace s) \<in> set (dropWhile isSpace s)" using n by (rule hd_in_set)
      ultimately show False using a by blast
    qed
  next
    assume e: "dropWhile isSpace s = []"
    show "\<forall>x\<in>set (dropWhile isSpace s). isSpace x" unfolding e by simp
  qed
  moreover have "dropWhile isSpace s = [] \<longleftrightarrow> (\<forall>x\<in>set s. isSpace x)"
    by (simp add: dropWhile_eq_Nil_conv)
  ultimately show ?thesis by (simp add: trim_def dropWhile_eq_Nil_conv)
qed

lemma slice_from_0: "slice s 0 n = take n s"
  by (simp add: slice_def)

lemma blank_prefix:
  assumes "trim (slice msg 0 i) = []" "k < i" "i \<le> length msg"
  shows "isSpace (msg ! k)"
proof -
  from assms(1) have "\<forall>x\<in>set (take i msg). isSpace x"
    by (simp add: trim_empty_iff slice_from_0)
  moreover have "take i msg ! k = msg ! k" using assms(2) by simp
  moreover have "k < length (take i msg)" using assms(2,3) by simp
  ultimately show ?thesis by (metis nth_mem)
qed

lemma length_slice: "t + n \<le> length s \<Longrightarrow> length (slice s t (t + n)) = n"
  by (simp add: slice_def)

lemma slice_append:
  assumes "a \<le> m" "m \<le> b" "b \<le> length s"
  shows "slice s a m @ slice s m b = slice s a b"
proof -
  have "take b s = take (m + (b - m)) s" using assms by simp
  also have "\<dots> = take m s @ take (b - m) (drop m s)" by (rule take_add)
  finally have t: "take b s = take m s @ take (b - m) (drop m s)" .
  have "drop a (take b s) = drop a (take m s) @ take (b - m) (drop m s)"
    unfolding t using assms by simp
  moreover have "drop m (take b s) = take (b - m) (drop m s)" by (simp add: drop_take)
  ultimately show ?thesis by (simp add: slice_def)
qed


subsection \<open>The patterns\<close>

lemma greedy_first: "lo \<le> n \<Longrightarrow> rest n = Some r \<Longrightarrow> greedy lo n rest = Some r"
  by (cases n) auto

lemma greedy_Some: "greedy lo n rest = Some r \<Longrightarrow> \<exists>k. lo \<le> k \<and> k \<le> n \<and> rest k = Some r"
proof (induction n)
  case 0
  then show ?case by (auto split: if_splits)
next
  case (Suc n)
  show ?case
  proof (cases "rest (Suc n)")
    case None
    with Suc.prems have "greedy lo n rest = Some r" by (auto split: if_splits)
    from Suc.IH [OF this] show ?thesis by (meson le_Suc_eq)
  next
    case (Some r')
    with Suc.prems have "\<not> Suc n < lo" "r' = r" by (auto split: if_splits)
    with Some show ?thesis by (intro exI [of _ "Suc n"]) simp
  qed
qed

lemma greedy_cases:
  assumes "greedy lo n rest = Some r"
  obtains k where "lo \<le> k" "k \<le> n" "rest k = Some r"
  using greedy_Some [OF assms] by blast

lemma run_nth:
  assumes "k < run cls s p"
  shows "p + k < length s \<and> cls (s ! (p + k))"
proof -
  let ?xs = "drop p s"
  from assms have k: "k < length (takeWhile cls ?xs)" by (simp add: run_def)
  have "length (takeWhile cls ?xs) \<le> length ?xs" by (rule length_takeWhile_le)
  with k have len: "p + k < length s" by simp
  from k have "takeWhile cls ?xs ! k \<in> set (takeWhile cls ?xs)" by (rule nth_mem)
  then have "cls (takeWhile cls ?xs ! k)" by (rule set_takeWhileD [THEN conjunct2])
  moreover have "takeWhile cls ?xs ! k = ?xs ! k" using k by (rule takeWhile_nth)
  moreover have "?xs ! k = s ! (p + k)" using len by simp
  ultimately show ?thesis using len by simp
qed

lemma space_not_name: "isSpace c \<Longrightarrow> \<not> isNameChar c"
  unfolding isSpace_def isNameChar_def isWordChar_def isDigit_def
  by (auto simp: word_le_nat_alt)

lemma name_not_space: "isNameChar c \<Longrightarrow> \<not> isSpace c"
  using space_not_name by blast

lemma digit_not_space: "isDigit c \<Longrightarrow> \<not> isSpace c"
  using space_not_name [of c] by (auto simp: isNameChar_def isWordChar_def)

lemma leaders_not_space: "\<not> isSpace 33" "\<not> isSpace 35" "\<not> isSpace 58"
  by (simp_all add: isSpace_def)

lemma solidI:
  assumes "1 \<le> n" "t + n \<le> length s" "\<And>i. i < n \<Longrightarrow> \<not> isSpace (s ! (t + i))"
  shows "solid s t n"
  using assms by (simp add: solid_def)

lemma solid_leader:
  assumes "t < length s" "\<not> isSpace (s ! t)"
  shows "solid s t 1"
  using assms by (simp add: solid_def)

lemma solid_next:
  assumes "solid s t n" "t + n < length s" "\<not> isSpace (s ! (t + n))"
  shows "solid s t (n + 1)"
  using assms by (auto simp: solid_def less_Suc_eq)

lemma solid_run:
  assumes "solid s t n" "k \<le> run cls s (t + n)" "\<And>c. cls c \<Longrightarrow> \<not> isSpace c"
  shows "solid s t (n + k)"
proof (rule solidI)
  from assms(1) show "1 \<le> n + k" by (simp add: solid_def)
next
  show "t + (n + k) \<le> length s"
  proof (cases k)
    case 0
    with assms(1) show ?thesis by (simp add: solid_def)
  next
    case (Suc k')
    with assms(2) have "k' < run cls s (t + n)" by simp
    from run_nth [OF this] Suc show ?thesis by simp
  qed
next
  fix i assume i: "i < n + k"
  show "\<not> isSpace (s ! (t + i))"
  proof (cases "i < n")
    case True
    with assms(1) show ?thesis by (simp add: solid_def)
  next
    case False
    then obtain i' where i': "i = n + i'" by (metis le_add_diff_inverse not_less)
    with i assms(2) have "i' < run cls s (t + n)" by simp
    from run_nth [OF this] assms(3) i' show ?thesis by (simp add: add.assoc)
  qed
qed

lemma solid_drop:
  assumes "solid (drop j msg) 0 n" "j \<le> length msg"
  shows "solid msg j n"
  using assms by (auto simp: solid_def)

lemma agentReg_lone:
  assumes "rest = [] \<or> isSpace (hd rest)"
  shows "agentReg (33 # rest) = Some ([33], [])"
proof (cases rest)
  case Nil
  then show ?thesis by (simp add: agentReg_def agentAt_def run_def lookahead_def slice_def)
next
  case (Cons c cs)
  with assms have sp: "isSpace c" by simp
  then have "\<not> isNameChar c" by (rule space_not_name)
  with Cons sp show ?thesis
    by (simp add: agentReg_def agentAt_def run_def lookahead_def slice_def)
qed

lemma agentAt_solid:
  assumes "agentAt s t = Some (full, name)"
  shows "solid s t (length full)"
proof -
  define F where "F = (\<lambda>k. if lookahead s (t + 1 + k)
               then Some (slice s t (t + 1 + k), slice s (t + 1) (t + 1 + k)) else None)"
  from assms have c: "t < length s" "s ! t = 33"
    by (auto simp: agentAt_def split: if_splits)
  with assms have "greedy 0 (run isNameChar s (t + 1)) F = Some (full, name)"
    unfolding agentAt_def F_def by simp
  then obtain k where k: "k \<le> run isNameChar s (t + 1)" and Fk: "F k = Some (full, name)"
    by (rule greedy_cases)
  from Fk have full: "full = slice s t (t + (1 + k))"
    unfolding F_def by (auto simp: add.assoc split: if_splits)
  from c have "solid s t 1" by (intro solid_leader) (simp_all add: leaders_not_space)
  from solid_run [OF this k name_not_space] have sol: "solid s t (1 + k)" .
  then have "t + (1 + k) \<le> length s" by (simp add: solid_def)
  with full have "length full = 1 + k" by (simp only: length_slice)
  with sol show ?thesis by simp
qed

lemma variableAt_solid:
  assumes "variableAt s t = Some (full, name, arg)"
  shows "solid s t (length full)"
proof -
  define G where "G = (\<lambda>p (name :: jsstring) j. if lookahead s (p + 1 + j)
                            then Some (slice s t (p + 1 + j), name, Some (slice s p (p + 1 + j)))
                            else None)"
  define F where "F = (\<lambda>k. let p = t + 1 + k; name = slice s (t + 1) p in
             case (if p < length s \<and> s ! p = 58 then
                     greedy 1 (run isDigit s (p + 1)) (G p name)
                   else None) of
               Some m \<Rightarrow> Some m
             | None \<Rightarrow> if lookahead s p then Some (slice s t p, name, None) else None)"
  from assms have c: "t < length s" "s ! t = 35"
    by (auto simp: variableAt_def split: if_splits)
  with assms have "greedy 1 (run isNameChar s (t + 1)) F = Some (full, name, arg)"
    unfolding variableAt_def F_def G_def by simp
  then obtain k where k: "k \<le> run isNameChar s (t + 1)" and Fk: "F k = Some (full, name, arg)"
    by (rule greedy_cases)
  from c have "solid s t 1" by (intro solid_leader) (simp_all add: leaders_not_space)
  from solid_run [OF this k name_not_space] have sol: "solid s t (1 + k)" .
  then have lenk: "t + (1 + k) \<le> length s" by (simp add: solid_def)
  let ?p = "t + 1 + k"
  let ?inner = "if ?p < length s \<and> s ! ?p = 58
                then greedy 1 (run isDigit s (?p + 1)) (G ?p (slice s (t + 1) ?p)) else None"
  show ?thesis
  proof (cases ?inner)
    case None
    with Fk have "full = slice s t (t + (1 + k))"
      unfolding F_def Let_def by (auto simp: add.assoc split: if_splits)
    with lenk have "length full = 1 + k" by (simp only: length_slice)
    with sol show ?thesis by simp
  next
    case (Some m)
    with Fk have m: "m = (full, name, arg)" unfolding F_def Let_def by simp
    from Some have colon: "?p < length s" "s ! ?p = 58" by (auto split: if_splits)
    with Some m have "greedy 1 (run isDigit s (?p + 1)) (G ?p (slice s (t + 1) ?p)) = Some (full, name, arg)"
      by simp
    then obtain j where j: "j \<le> run isDigit s (?p + 1)"
      and Gj: "G ?p (slice s (t + 1) ?p) j = Some (full, name, arg)"
      by (rule greedy_cases)
    from Gj have full: "full = slice s t (t + (1 + k + 1 + j))"
      unfolding G_def by (auto simp: add.assoc split: if_splits)
    from colon have "t + (1 + k) < length s" "\<not> isSpace (s ! (t + (1 + k)))"
      by (simp_all add: add.assoc leaders_not_space)
    from solid_next [OF sol this] have sol2: "solid s t (1 + k + 1)" .
    from j have "j \<le> run isDigit s (t + (1 + k + 1))" by (simp add: add.assoc)
    from solid_run [OF sol2 this digit_not_space] have sol3: "solid s t (1 + k + 1 + j)" .
    then have "t + (1 + k + 1 + j) \<le> length s" by (simp add: solid_def)
    with full have "length full = 1 + k + 1 + j" by (simp only: length_slice)
    with sol3 show ?thesis by simp
  qed
qed


subsection \<open>What a matcher returns\<close>

lemma isCommandPart_simps [simp]:
  "\<not> isCommandPart (ChatRequestTextPart r e t)"
  "\<not> isCommandPart (ChatRequestVariablePart r e n a)"
  "\<not> isCommandPart (ChatRequestDynamicReferencePart r e n a d)"
  "\<not> isCommandPart (ChatRequestAgentPart r e g)"
  "isCommandPart (ChatRequestAgentSubcommandPart r e k)"
  "isCommandPart (ChatRequestSlashCommandPart r e sc)"
  by (simp_all add: isCommandPart_def)

lemma tryToParseVariable_Some:
  "tryToParseVariable svc m off pos parts = Some p \<Longrightarrow>
     \<exists>len e n a. p = ChatRequestVariablePart (OffsetRange off (off + len)) e n a"
  by (auto simp: tryToParseVariable_def Let_def split: option.splits prod.splits if_splits)

lemma tryToParseVariable_solid:
  assumes "tryToParseVariable svc m off pos ps = Some p"
  shows "\<exists>len. partRange p = OffsetRange off (off + len) \<and> solid m 0 len"
proof -
  from assms obtain full name arg where "variableReg m = Some (full, name, arg)"
    and "partRange p = OffsetRange off (off + length full)"
    by (auto simp: tryToParseVariable_def Let_def split: option.splits prod.splits if_splits)
  then show ?thesis using variableAt_solid [of m 0 full name arg] by (auto simp: variableReg_def)
qed

lemma tryToParseVariable_parts:
  "tryToParseVariable svc m off pos ps = tryToParseVariable svc m off pos ps'"
  by (simp add: tryToParseVariable_def)

lemma tryToParseDynamicVariable_Some:
  "tryToParseDynamicVariable m off pos refs = Some p \<Longrightarrow>
     \<exists>len e n a d. p = ChatRequestDynamicReferencePart (OffsetRange off (off + len)) e n a d"
  by (auto simp: tryToParseDynamicVariable_def Let_def split: option.splits prod.splits if_splits)

lemma tryToParseDynamicVariable_payload:
  assumes "tryToParseDynamicVariable m off pos refs = Some p"
  shows "\<exists>rg endColumn n a ref.
           p = ChatRequestDynamicReferencePart rg
                 (EditorRange (positionLine pos) (positionColumn pos) (positionLine pos) endColumn)
                 n a (referenceData ref)
           \<and> start rg = off
           \<and> find (\<lambda>x. startLineNumber (referenceRange x) = positionLine pos
                         \<and> startColumn (referenceRange x) = positionColumn pos) refs = Some ref"
  using assms
  by (auto simp: tryToParseDynamicVariable_def Let_def split: option.splits prod.splits)

lemma tryToParseAgent_Some:
  "tryToParseAgent svc m full off pos parts = Some p \<Longrightarrow>
     (\<exists>len e a. p = ChatRequestAgentPart (OffsetRange off (off + len)) e a)
     \<and> \<not> list_ex isAgentPart parts
     \<and> \<not> list_ex (\<lambda>q. nonBlankText q \<or> \<not> isAgentPart q) parts
     \<and> trim (slice full (previousEnd parts) off) = []"
  by (auto simp: tryToParseAgent_def Let_def split: option.splits prod.splits if_splits)

lemma tryToParseAgent_solid:
  assumes "tryToParseAgent svc m fullMessage off pos ps = Some p"
  shows "\<exists>len. partRange p = OffsetRange off (off + len) \<and> solid m 0 len"
proof -
  from assms obtain full name where "agentReg m = Some (full, name)"
    and "partRange p = OffsetRange off (off + length full)"
    by (auto simp: tryToParseAgent_def Let_def split: option.splits prod.splits if_splits)
  then show ?thesis using agentAt_solid [of m 0 full name] by (auto simp: agentReg_def)
qed

lemma tryToParseSlashCommand_Some:
  assumes "tryToParseSlashCommand svc m full off pos parts = Inr (Some p)"
  shows "(\<exists>len e c. p = ChatRequestAgentSubcommandPart (OffsetRange off (off + len)) e c
         \<and> list_ex isAgentPart parts \<and> list_all (\<lambda>q. isAgentPart q \<or> isTextPart q) parts)
   \<or> (\<exists>len e c. p = ChatRequestSlashCommandPart (OffsetRange off (off + len)) e c
         \<and> \<not> list_ex isSlashCommandPart parts \<and> \<not> list_ex isAgentPart parts)"
proof (cases "find isAgentPart parts")
  case None
  then have "\<not> list_ex isAgentPart parts" by (rule find_agent_None)
  with assms None show ?thesis
    by (auto simp: tryToParseSlashCommand_def Let_def split: option.splits prod.splits if_splits)
next
  case (Some q)
  then have q: "isAgentPart q" "q \<in> set parts" using find_SomeD by fast+
  then obtain r e a where "q = ChatRequestAgentPart r e a" by (cases q) auto
  with assms Some q show ?thesis
    by (auto simp: tryToParseSlashCommand_def Let_def list_ex_iff list_all_iff
        split: option.splits prod.splits if_splits sum.splits)
qed

lemma agent_only_first: 
  assumes "\<not> list_ex isAgentPart parts" "\<not> list_ex (\<lambda>q. nonBlankText q \<or> \<not> isAgentPart q) parts"
  shows "parts = []"
  using assms by (cases parts) auto

text \<open>
  What a candidate offset tells about the part that starts there.
\<close>

lemma newPartAt_Some:
  assumes "newPartAt svc refs msg i l c parts = Inr (Some p)"
  shows "(i = 0 \<or> isSpace (msg ! (i - 1))) \<and> isLeader (msg ! i) \<and> start (partRange p) = i
       \<and> \<not> isTextPart p
       \<and> (isAgentPart p \<longrightarrow> parts = [] \<and> trim (slice msg 0 i) = [])
       \<and> (isAgentSubcommandPart p \<longrightarrow>
             list_ex isAgentPart parts \<and> list_all (\<lambda>q. isAgentPart q \<or> isTextPart q) parts)
       \<and> (isSlashCommandPart p \<longrightarrow>
             \<not> list_ex isSlashCommandPart parts \<and> \<not> list_ex isAgentPart parts)"
proof -
  have gate: "i = 0 \<or> isSpace (msg ! (i - 1))" and lead: "isLeader (msg ! i)"
    using assms by (auto simp: newPartAt_def Let_def isLeader_def split: if_splits)
  consider
      (var) "tryToParseVariable svc (drop i msg) i (Position l c) parts = Some p"
    | (dyn) "tryToParseDynamicVariable (drop i msg) i (Position l c) refs = Some p"
    | (agent) "tryToParseAgent svc (drop i msg) msg i (Position l c) parts = Some p"
    | (slash) "tryToParseSlashCommand svc (drop i msg) msg i (Position l c) parts = Inr (Some p)"
    using assms by (auto simp: newPartAt_def Let_def split: if_splits option.splits)
  then show ?thesis
  proof cases
    case var
    from tryToParseVariable_Some [OF this] gate lead show ?thesis by auto
  next
    case dyn
    from tryToParseDynamicVariable_Some [OF this] gate lead show ?thesis by auto
  next
    case agent
    note a = tryToParseAgent_Some [OF this]
    then have "parts = []" using agent_only_first by blast
    with a gate lead show ?thesis by (auto simp: previousEnd_def atLast_def)
  next
    case slash
    from tryToParseSlashCommand_Some [OF this] gate lead show ?thesis by auto
  qed
qed

lemma newPartAt_dynamic:
  assumes "newPartAt svc refs msg j l c ps = Inr (Some (ChatRequestDynamicReferencePart rg er n a d))"
  shows "msg ! j = chatFileVariableLeader
       \<and> tryToParseVariable svc (drop j msg) j (Position l c) ps = None
       \<and> tryToParseDynamicVariable (drop j msg) j (Position l c) refs
           = Some (ChatRequestDynamicReferencePart rg er n a d)"
proof -
  let ?p = "ChatRequestDynamicReferencePart rg er n a d"
  have a: "tryToParseAgent svc (drop j msg) msg j (Position l c) ps \<noteq> Some ?p"
    using tryToParseAgent_Some [of svc "drop j msg" msg j "Position l c" ps ?p] by auto
  have s: "tryToParseSlashCommand svc (drop j msg) msg j (Position l c) ps \<noteq> Inr (Some ?p)"
    using tryToParseSlashCommand_Some [of svc "drop j msg" msg j "Position l c" ps ?p] by auto
  have v: "tryToParseVariable svc (drop j msg) j (Position l c) ps \<noteq> Some ?p"
    using tryToParseVariable_Some [of svc "drop j msg" j "Position l c" ps ?p] by auto
  from assms a s v show ?thesis
    by (auto simp: newPartAt_def Let_def split: if_splits option.splits)
qed

lemma newPartAt_solid:
  assumes "newPartAt svc refs msg j l c ps = Inr (Some q)"
      and "\<not> isCommandPart q" "\<not> isDynamicReferencePart q" "j < length msg"
  shows "\<exists>len. partRange q = OffsetRange j (j + len) \<and> solid msg j len"
proof -
  consider
      (var) "tryToParseVariable svc (drop j msg) j (Position l c) ps = Some q"
    | (dyn) "tryToParseDynamicVariable (drop j msg) j (Position l c) refs = Some q"
    | (agent) "tryToParseAgent svc (drop j msg) msg j (Position l c) ps = Some q"
    | (slash) "tryToParseSlashCommand svc (drop j msg) msg j (Position l c) ps = Inr (Some q)"
    using assms(1) by (auto simp: newPartAt_def Let_def split: if_splits option.splits)
  then show ?thesis
  proof cases
    case var
    from tryToParseVariable_solid [OF this] obtain len
      where "partRange q = OffsetRange j (j + len)" "solid (drop j msg) 0 len" by blast
    with assms(4) solid_drop [of j msg len] show ?thesis by auto
  next
    case dyn
    from tryToParseDynamicVariable_Some [OF this] assms(3) show ?thesis by auto
  next
    case agent
    from tryToParseAgent_solid [OF this] obtain len
      where "partRange q = OffsetRange j (j + len)" "solid (drop j msg) 0 len" by blast
    with assms(4) solid_drop [of j msg len] show ?thesis by auto
  next
    case slash
    from tryToParseSlashCommand_Some [OF this] assms(2) show ?thesis by auto
  qed
qed


subsection \<open>Parts and their ranges\<close>

lemma isTextPart_textBefore [simp]: "isTextPart (textBefore msg i l c ps)"
  by (simp add: textBefore_def)

lemma not_agent_textBefore [simp]: "\<not> isAgentPart (textBefore msg i l c ps)"
  by (simp add: textBefore_def)

lemma not_command_textBefore [simp]: "\<not> isCommandPart (textBefore msg i l c ps)"
  by (simp add: textBefore_def isCommandPart_def)

lemma not_sub_textBefore [simp]: "\<not> isAgentSubcommandPart (textBefore msg i l c ps)"
  by (simp add: textBefore_def)

lemma partRange_textBefore [simp]:
  "partRange (textBefore msg i l c ps) = OffsetRange (previousEnd ps) i"
  by (simp add: textBefore_def)

lemma previousEnd_simps [simp]:
  "previousEnd [] = 0"
  "previousEnd (ps @ [p]) = endExclusive (partRange p)"
  "previousEnd (ps @ [p, q]) = endExclusive (partRange q)"
  by (simp_all add: previousEnd_def atLast_def)

lemma pushNewPart_None [simp]: "pushNewPart msg i l c ps None = ps"
  by (simp add: pushNewPart_def)

lemma set_pushNewPart:
  "set (pushNewPart msg i l c ps (Some p)) \<subseteq> insert p (insert (textBefore msg i l c ps) (set ps))"
  by (auto simp: pushNewPart_def)

lemma filter_pushNewPart:
  assumes "\<not> P (textBefore msg i l c ps)"
  shows "filter P (pushNewPart msg i l c ps (Some p)) = filter P ps @ (if P p then [p] else [])"
  using assms by (simp add: pushNewPart_def)

lemma no_commands:
  assumes "list_all (\<lambda>q. isAgentPart q \<or> isTextPart q) ps"
  shows "filter isCommandPart ps = []"
proof -
  have "\<not> isCommandPart q" if "isAgentPart q \<or> isTextPart q" for q :: "'a part"
    using that by (cases q) (auto simp: isCommandPart_def)
  with assms show ?thesis by (auto simp: filter_empty_conv list_all_iff)
qed

lemma no_commands':
  assumes "\<not> list_ex isSlashCommandPart ps" "\<not> list_ex isAgentSubcommandPart ps"
  shows "filter isCommandPart ps = []"
  using assms by (auto simp: filter_empty_conv list_ex_iff isCommandPart_def)

lemma clean_append [simp]: "clean (ps @ qs) \<longleftrightarrow> clean ps \<and> clean qs"
  by (auto simp: clean_def)

lemma clean_single: "clean [q] \<longleftrightarrow> \<not> isCommandPart q \<and> \<not> isDynamicReferencePart q"
  by (simp add: clean_def)

lemma contiguousFrom_append:
  "contiguousFrom a (ps @ qs) c \<longleftrightarrow> (\<exists>b. contiguousFrom a ps b \<and> contiguousFrom b qs c)"
  by (induction ps arbitrary: a) auto

lemma contiguousFrom_previousEnd:
  "contiguousFrom a ps b \<Longrightarrow> ps \<noteq> [] \<Longrightarrow> previousEnd ps = b"
proof (induction ps arbitrary: a)
  case Nil
  then show ?case by simp
next
  case (Cons p ps)
  then show ?case by (cases ps) (auto simp: previousEnd_def atLast_def)
qed

lemma contiguousFrom_lower:
  "contiguousFrom a ps b \<Longrightarrow> q \<in> set ps \<Longrightarrow> a \<le> start (partRange q)"
  by (induction ps arbitrary: a) (auto intro: order_trans)

lemma contiguousFrom_le: "contiguousFrom a ps b \<Longrightarrow> a \<le> b"
  by (induction ps arbitrary: a) (auto intro: order_trans)

lemma contiguous_increasing:
  assumes "contiguousFrom a ps b" "\<forall>p\<in>set ps. start (partRange p) < endExclusive (partRange p)"
  shows "startsIncreasing ps"
  using assms unfolding startsIncreasing_def
proof (induction ps arbitrary: a)
  case Nil
  show ?case by simp
next
  case (Cons p ps)
  then have tl: "contiguousFrom (endExclusive (partRange p)) ps b"
    and ne: "start (partRange p) < endExclusive (partRange p)" by simp_all
  have "start (partRange p) < start (partRange q)" if "q \<in> set ps" for q
    using contiguousFrom_lower [OF tl that] ne by simp
  moreover from Cons.IH [OF tl] Cons.prems(2)
  have "sorted_wrt (<) (map (\<lambda>p. start (partRange p)) ps)" by simp
  ultimately show ?case by simp
qed

lemma concat_covered:
  assumes "contiguousFrom a ps b" "b \<le> length msg"
  shows "concat (map (covered msg) ps) = slice msg a b"
  using assms
proof (induction ps arbitrary: a)
  case Nil
  then show ?case by (simp add: slice_def)
next
  case (Cons p ps)
  let ?e = "endExclusive (partRange p)"
  from Cons.prems have tl: "contiguousFrom ?e ps b" and st: "start (partRange p) = a" "a \<le> ?e"
    by simp_all
  from contiguousFrom_le [OF tl] have "?e \<le> b" .
  from slice_append [OF st(2) this Cons.prems(2)] Cons.IH [OF tl Cons.prems(2)] st
  show ?case by (simp add: covered_def)
qed


subsection \<open>One step of the loop, and invariants of the whole loop\<close>

lemma step_nl:
  assumes "i < length msg" "newPartAt svc refs msg i l c parts = Inr np" "msg ! i = 10"
  shows "parseLoop svc refs msg i l c parts = parseLoop svc refs msg (i + 1) (l + 1) 1 (pushNewPart msg i l c parts np)"
  apply (subst parseLoop.simps)
  using assms apply simp
  done

lemma step_other:
  assumes "i < length msg" "newPartAt svc refs msg i l c parts = Inr np" "msg ! i \<noteq> 10"
  shows "parseLoop svc refs msg i l c parts = parseLoop svc refs msg (i + 1) l (c + 1) (pushNewPart msg i l c parts np)"
  apply (subst parseLoop.simps)
  using assms apply simp
  done

lemma step_err:
  assumes "i < length msg" "newPartAt svc refs msg i l c parts = Inl e"
  shows "parseLoop svc refs msg i l c parts = Inl e"
  apply (subst parseLoop.simps)
  using assms apply simp
  done

lemma step_end:
  assumes "\<not> i < length msg" 
  shows "parseLoop svc refs msg i l c parts = Inr (parts, l, c)"
  apply (subst parseLoop.simps)
  using assms apply simp
  done

lemma parseLoop_invariant:
  assumes "parseLoop svc refs msg i l c parts = Inr (parts', l', c')"
      and "I parts"
      and "\<And>j l c ps np. j < length msg \<Longrightarrow> I ps \<Longrightarrow> newPartAt svc refs msg j l c ps = Inr np
             \<Longrightarrow> I (pushNewPart msg j l c ps np)"
  shows "I parts'"
  using assms
proof (induction svc refs msg i l c parts rule: parseLoop.induct)
  case (1 svc refs msg i l c parts)
  show ?case
  proof (cases "i < length msg")
    case False
    with "1.prems"(1,2) show ?thesis by (simp add: step_end)
  next
    case True
    obtain np where np: "newPartAt svc refs msg i l c parts = Inr np"
    proof (cases "newPartAt svc refs msg i l c parts")
      case (Inl e)
      with True "1.prems"(1) show ?thesis by (simp add: step_err)
    next
      case (Inr np)
      then show ?thesis by (rule that)
    qed
    have I': "I (pushNewPart msg i l c parts np)" using "1.prems"(3) [OF True "1.prems"(2) np] .
    show ?thesis
    proof (cases "msg ! i = 10")
      case nl: True
      from "1.prems"(1) have
        "parseLoop svc refs msg (i + 1) (l + 1) 1 (pushNewPart msg i l c parts np) = Inr (parts', l', c')"
        by (simp only: step_nl [OF True np nl])
      from "1.IH"(1) [OF True np nl this I' "1.prems"(3)] show ?thesis .
    next
      case nl: False
      from "1.prems"(1) have
        "parseLoop svc refs msg (i + 1) l (c + 1) (pushNewPart msg i l c parts np) = Inr (parts', l', c')"
        by (simp only: step_other [OF True np nl])
      from "1.IH"(2) [OF True np nl this I' "1.prems"(3)] show ?thesis .
    qed
  qed
qed

lemma parseLoop_invariant_at:
  assumes "parseLoop svc refs msg i l c parts = Inr (parts', l', c')"
      and "I i parts" "i \<le> length msg"
      and "\<And>j l c ps np. j < length msg \<Longrightarrow> I j ps \<Longrightarrow> newPartAt svc refs msg j l c ps = Inr np
             \<Longrightarrow> I (Suc j) (pushNewPart msg j l c ps np)"
  shows "I (length msg) parts'"
  using assms
proof (induction svc refs msg i l c parts rule: parseLoop.induct)
  case (1 svc refs msg i l c parts)
  show ?case
  proof (cases "i < length msg")
    case False
    with "1.prems"(1,2,3) show ?thesis by (simp add: step_end)
  next
    case True
    obtain np where np: "newPartAt svc refs msg i l c parts = Inr np"
    proof (cases "newPartAt svc refs msg i l c parts")
      case (Inl e)
      with True "1.prems"(1) show ?thesis by (simp add: step_err)
    next
      case (Inr np)
      then show ?thesis by (rule that)
    qed
    have I': "I (i + 1) (pushNewPart msg i l c parts np)"
      using "1.prems"(4) [OF True "1.prems"(2) np] by simp
    have le: "i + 1 \<le> length msg" using True by simp
    show ?thesis
    proof (cases "msg ! i = 10")
      case nl: True
      from "1.prems"(1) have
        "parseLoop svc refs msg (i + 1) (l + 1) 1 (pushNewPart msg i l c parts np) = Inr (parts', l', c')"
        by (simp only: step_nl [OF True np nl])
      from "1.IH"(1) [OF True np nl this I' le "1.prems"(4)] show ?thesis .
    next
      case nl: False
      from "1.prems"(1) have
        "parseLoop svc refs msg (i + 1) l (c + 1) (pushNewPart msg i l c parts np) = Inr (parts', l', c')"
        by (simp only: step_other [OF True np nl])
      from "1.IH"(2) [OF True np nl this I' le "1.prems"(4)] show ?thesis .
    qed
  qed
qed

lemma parseLoop_scanTo:
  "n \<le> length msg \<Longrightarrow>
     parseLoop svc refs msg 0 1 1 [] =
       (case scanTo svc refs msg n of
          Inl err \<Rightarrow> Inl err
        | Inr (ps, l, c) \<Rightarrow> parseLoop svc refs msg n l c ps)"
proof (induction n)
  case 0
  show ?case by simp
next
  case (Suc n)
  then have n: "n < length msg" and
    IH: "parseLoop svc refs msg 0 1 1 [] =
       (case scanTo svc refs msg n of
          Inl err \<Rightarrow> Inl err
        | Inr (ps, l, c) \<Rightarrow> parseLoop svc refs msg n l c ps)" by simp_all
  show ?case
  proof (cases "scanTo svc refs msg n")
    case (Inl err)
    with IH show ?thesis by simp
  next
    case (Inr st)
    obtain ps l c where st: "st = (ps, l, c)" by (cases st)
    show ?thesis
    proof (cases "newPartAt svc refs msg n l c ps")
      case (Inl err)
      with IH Inr st n show ?thesis by (simp add: step_err)
    next
      case np: (Inr np)
      show ?thesis
      proof (cases "msg ! n = 10")
        case True
        with IH Inr st np step_nl [OF n np True] show ?thesis by simp
      next
        case False
        with IH Inr st np step_other [OF n np False] show ?thesis by simp
      qed
    qed
  qed
qed

lemma parseChatRequest_parts:
  assumes "parseChatRequest svc sessionId msg = Inr r"
  obtains parts l c where
    "parseLoop svc (getDynamicReferences svc sessionId) msg 0 1 1 [] = Inr (parts, l, c)"
    "parsedParts r = parts \<or> parsedParts r = parts @ [textBefore msg (length msg) l c parts]"
    "parsedText r = msg"
  using assms
  by (auto simp: parseChatRequest_def Let_def split: sum.splits prod.splits if_splits)

lemma parseChatRequest_result:
  assumes "parseChatRequest svc sessionId msg = Inr r"
  obtains parts l c where
    "parseLoop svc (getDynamicReferences svc sessionId) msg 0 1 1 [] = Inr (parts, l, c)"
    "parsedParts r = (if previousEnd parts < length msg
                      then parts @ [textBefore msg (length msg) l c parts] else parts)"
  using assms
  by (auto simp: parseChatRequest_def Let_def split: sum.splits prod.splits)

text \<open>
  The step of the invariant behind the tiling: while no part pushed so far comes from a
  pattern without \<open>^\<close>, the parts tile the message up to the end of the last one, and
  no white space lies between the offset before the loop's and that end.
\<close>

lemma tiled_step:
  assumes j: "j < length msg"
      and I: "clean ps \<longrightarrow> tiled msg j ps"
      and np: "newPartAt svc refs msg j l c ps = Inr np"
  shows "clean (pushNewPart msg j l c ps np) \<longrightarrow> tiled msg (Suc j) (pushNewPart msg j l c ps np)"
proof
  assume cl: "clean (pushNewPart msg j l c ps np)"
  show "tiled msg (Suc j) (pushNewPart msg j l c ps np)"
  proof (cases np)
    case None
    with cl I have "tiled msg j ps" by simp
    then have "tiled msg (Suc j) ps" by (auto simp: tiled_def)
    with None show ?thesis by simp
  next
    case (Some q)
    with cl have clps: "clean ps" and clq: "\<not> isCommandPart q" "\<not> isDynamicReferencePart q"
      by (auto simp: pushNewPart_def clean_single split: if_splits)
    from I clps have t: "tiled msg j ps" by simp
    from newPartAt_Some [OF np [unfolded Some]] have gate: "j = 0 \<or> isSpace (msg ! (j - 1))" by simp
    from newPartAt_solid [OF np [unfolded Some] clq j] obtain len
      where rq: "partRange q = OffsetRange j (j + len)" and sol: "solid msg j len" by blast
    from sol have len: "1 \<le> len" "j + len \<le> length msg"
      and ns: "\<And>i. i < len \<Longrightarrow> \<not> isSpace (msg ! (j + i))" by (simp_all add: solid_def)
    have tail: "\<not> isSpace (msg ! k)" if "j \<le> k" "k < j + len" for k
    proof -
      from that obtain i where "k = j + i" "i < len" by (metis le_add_diff_inverse nat_add_left_cancel_less)
      with ns show ?thesis by simp
    qed
    show ?thesis
    proof (cases "j = 0")
      case True
      with t have "ps = []" by (simp add: tiled_def)
      with True Some rq len tail show ?thesis
        by (auto simp: pushNewPart_def tiled_def previousEnd_def atLast_def)
    next
      case False
      with gate have sp: "isSpace (msg ! (j - 1))" by simp
      let ?pe = "previousEnd ps"
      have pe: "?pe < j"
      proof (rule ccontr)
        assume "\<not> ?pe < j"
        with False have "j \<le> Suc (j - 1) \<and> j - 1 < ?pe" by simp
        with t have "\<not> isSpace (msg ! (j - 1))" unfolding tiled_def by blast
        with sp show False by simp
      qed
      let ?t = "textBefore msg j l c ps"
      from False Some have push: "pushNewPart msg j l c ps np = ps @ [?t, q]"
        by (simp add: pushNewPart_def)
      from t have c0: "contiguousFrom 0 ps ?pe" by (simp add: tiled_def)
      have "contiguousFrom ?pe [?t, q] (j + len)" using pe rq by simp
      with c0 have c1: "contiguousFrom 0 (ps @ [?t, q]) (j + len)"
        unfolding contiguousFrom_append by blast
      have ne: "\<forall>p\<in>set (ps @ [?t, q]). start (partRange p) < endExclusive (partRange p)"
        using t pe rq len by (auto simp: tiled_def)
      have pe': "previousEnd (ps @ [?t, q]) = j + len" using rq by simp
      show ?thesis
        unfolding push tiled_def pe' using c1 ne len tail by auto
    qed
  qed
qed

text \<open>
  The definitions that the evaluation of a parse at a given message unfolds.
\<close>

lemmas eval_defs = str_def parseChatRequest_def newPartAt_def
    tryToParseAgent_def tryToParseSlashCommand_def tryToParseVariable_def tryToParseDynamicVariable_def
    agentReg_def agentAt_def slashReg_def slashAt_def variableReg_def variableAt_def
    variableWithArgReg_def variableWithArgAt_def
    run_def lookahead_def wordBoundary_def wordAt_def isNameChar_def isWordChar_def isDigit_def
    isSpace_def isArgChar_def slice_def trim_def pushNewPart_def textBefore_def previousEnd_def
    atLast_def chatAgentLeader_def chatFileVariableLeader_def chatSubcommandLeader_def


section \<open>The claims\<close>

subsection \<open>C1: the segments tile the message\<close>

text \<open>
  What holds of C1 on the code: a parse result with no SlashCommand, AgentSubcommand or
  DynamicReference segment, the segments of the two patterns without \<open>^\<close>, tiles the
  message. Its segments are contiguous from offset 0 to the length of the message, their
  start offsets increase strictly, and the substrings they cover spell the message.
\<close>

lemma tiling_without_detached_matches:
  assumes "parseChatRequest svc sessionId message = Inr r"
      and "clean (parsedParts r)"
  shows "contiguousFrom 0 (parsedParts r) (length message)
       \<and> startsIncreasing (parsedParts r)
       \<and> concat (map (covered message) (parsedParts r)) = message"
proof -
  from assms(1) obtain parts l c where
    loop: "parseLoop svc (getDynamicReferences svc sessionId) message 0 1 1 [] = Inr (parts, l, c)"
    and r: "parsedParts r = (if previousEnd parts < length message
                      then parts @ [textBefore message (length message) l c parts] else parts)"
    by (rule parseChatRequest_result)
  let ?I = "\<lambda>j (ps :: 'a part list). clean ps \<longrightarrow> tiled message j ps"
  have "?I (length message) parts"
  proof (rule parseLoop_invariant_at [OF loop, where I = ?I])
    show "?I 0 []" by (simp add: tiled_def)
  next
    show "0 \<le> length message" by simp
  next
    fix j l c np and ps :: "'a part list"
    assume "j < length message" "?I j ps"
      "newPartAt svc (getDynamicReferences svc sessionId) message j l c ps = Inr np"
    then show "?I (Suc j) (pushNewPart message j l c ps np)" by (rule tiled_step)
  qed
  moreover from assms(2) r have "clean parts" by (auto split: if_splits)
  ultimately have t: "tiled message (length message) parts" by simp
  let ?pe = "previousEnd parts"
  from t have c0: "contiguousFrom 0 parts ?pe" and le: "?pe \<le> length message"
    and ne0: "\<forall>p\<in>set parts. start (partRange p) < endExclusive (partRange p)"
    by (simp_all add: tiled_def)
  have c: "contiguousFrom 0 (parsedParts r) (length message)"
   and ne: "\<forall>p\<in>set (parsedParts r). start (partRange p) < endExclusive (partRange p)"
  proof -
    show "contiguousFrom 0 (parsedParts r) (length message)"
    proof (cases "?pe < length message")
      case True
      then have "contiguousFrom ?pe [textBefore message (length message) l c parts] (length message)"
        by simp
      with c0 have "\<exists>b. contiguousFrom 0 parts b
          \<and> contiguousFrom b [textBefore message (length message) l c parts] (length message)"
        by blast
      then have "contiguousFrom 0 (parts @ [textBefore message (length message) l c parts]) (length message)"
        by (simp only: contiguousFrom_append)
      with True r show ?thesis by simp
    next
      case False
      with le c0 r show ?thesis by simp
    qed
    show "\<forall>p\<in>set (parsedParts r). start (partRange p) < endExclusive (partRange p)"
      using ne0 r by (auto split: if_splits)
  qed
  from contiguous_increasing [OF c ne] concat_covered [OF c] c
  show ?thesis by (simp add: slice_def)
qed

text \<open>
  C1 fails on the code. \<open>slashReg\<close> has no \<open>^\<close>, so a slash candidate that matches
  nothing at its own offset takes the first match further on, while the segment is laid at
  the candidate's offset with the length of that match. For "/ #v /a", with a slash command
  "a" and a variable "v" registered, the SlashCommand segment covers "/ ", and the Variable
  segment that follows is preceded by an empty Text segment: two segments start at offset
  2, so the start offsets do not increase strictly.
\<close>

theorem detached_slash_breaks_tiling:
  "parseChatRequest exampleServices [] (str ''/ #v /a'') =
     Inr (ParsedChatRequest
            [ChatRequestSlashCommandPart (OffsetRange 0 2) (EditorRange 1 1 1 3) (SlashData (str ''a'') []),
             ChatRequestTextPart (OffsetRange 2 2) (EditorRange 1 3 1 3) [],
             ChatRequestVariablePart (OffsetRange 2 4) (EditorRange 1 3 1 5) (str ''v'') [],
             ChatRequestTextPart (OffsetRange 4 7) (EditorRange 1 5 1 8) (str '' /a'')]
            (str ''/ #v /a''))
   \<and> \<not> startsIncreasing
         [ChatRequestSlashCommandPart (OffsetRange 0 2) (EditorRange 1 1 1 3) (SlashData (str ''a'') []),
          ChatRequestTextPart (OffsetRange 2 2) (EditorRange 1 3 1 3) [],
          ChatRequestVariablePart (OffsetRange 2 4) (EditorRange 1 3 1 5) (str ''v'') [],
          ChatRequestTextPart (OffsetRange 4 7) (EditorRange 1 5 1 8) (str '' /a'') :: nat part]
   \<and> covered (str ''/ #v /a'')
         (ChatRequestSlashCommandPart (OffsetRange 0 2) (EditorRange 1 1 1 3) (SlashData (str ''a'') []) :: nat part)
       = str ''/ ''"
  by code_simp

text \<open>
  With a longer command the segments overlap. For "/ #v /foo" the SlashCommand segment
  is laid over "/ #v", the Variable segment starts inside it, and the Text part pushed
  between them is given the bounds 4 and 2; where the range constructor takes them as they
  are, the substrings covered spell "/ #v#v /foo".
\<close>

lemma detached_slash_overlap:
  "parseChatRequest exampleServices [] (str ''/ #v /foo'') =
     Inr (ParsedChatRequest
            [ChatRequestSlashCommandPart (OffsetRange 0 4) (EditorRange 1 1 1 5) (SlashData (str ''foo'') []),
             ChatRequestTextPart (OffsetRange 4 2) (EditorRange 1 5 1 3) [],
             ChatRequestVariablePart (OffsetRange 2 4) (EditorRange 1 3 1 5) (str ''v'') [],
             ChatRequestTextPart (OffsetRange 4 9) (EditorRange 1 5 1 10) (str '' /foo'')]
            (str ''/ #v /foo''))
   \<and> \<not> contiguousFrom 0
         [ChatRequestSlashCommandPart (OffsetRange 0 4) (EditorRange 1 1 1 5) (SlashData (str ''foo'') []),
          ChatRequestTextPart (OffsetRange 4 2) (EditorRange 1 5 1 3) [],
          ChatRequestVariablePart (OffsetRange 2 4) (EditorRange 1 3 1 5) (str ''v'') [],
          ChatRequestTextPart (OffsetRange 4 9) (EditorRange 1 5 1 10) (str '' /foo'') :: nat part] 9
   \<and> concat (map (covered (str ''/ #v /foo''))
         [ChatRequestSlashCommandPart (OffsetRange 0 4) (EditorRange 1 1 1 5) (SlashData (str ''foo'') []),
          ChatRequestTextPart (OffsetRange 4 2) (EditorRange 1 5 1 3) [],
          ChatRequestVariablePart (OffsetRange 2 4) (EditorRange 1 3 1 5) (str ''v'') [],
          ChatRequestTextPart (OffsetRange 4 9) (EditorRange 1 5 1 10) (str '' /foo'') :: nat part])
       = str ''/ #v#v /foo''"
  by code_simp

subsection \<open>C2: one agent, one command\<close>

lemma oneOfEach_step:
  assumes "oneOfEach ps" "newPartAt svc refs msg j l c ps = Inr np"
  shows "oneOfEach (pushNewPart msg j l c ps np)"
proof (cases np)
  case None
  with assms show ?thesis by simp
next
  case (Some p)
  note facts = newPartAt_Some [OF assms(2) [unfolded Some]]
  have f: "filter isAgentPart (pushNewPart msg j l c ps np)
             = filter isAgentPart ps @ (if isAgentPart p then [p] else [])"
          "filter isCommandPart (pushNewPart msg j l c ps np)
             = filter isCommandPart ps @ (if isCommandPart p then [p] else [])"
    using Some by (simp_all add: filter_pushNewPart)
  have ex: "list_ex isAgentPart (pushNewPart msg j l c ps np) = (list_ex isAgentPart ps \<or> isAgentPart p)"
           "list_ex isAgentSubcommandPart (pushNewPart msg j l c ps np)
              = (list_ex isAgentSubcommandPart ps \<or> isAgentSubcommandPart p)"
    using Some by (auto simp: pushNewPart_def)
  show ?thesis
  proof (cases p)
    case (ChatRequestTextPart r e t)
    with facts show ?thesis by simp
  next
    case (ChatRequestVariablePart r e n a)
    with assms(1) show ?thesis by (simp add: oneOfEach_def f ex)
  next
    case (ChatRequestDynamicReferencePart r e n a d)
    with assms(1) show ?thesis by (simp add: oneOfEach_def f ex)
  next
    case (ChatRequestAgentPart r e g)
    with facts have "ps = []" by simp
    with ChatRequestAgentPart Some show ?thesis by (simp add: oneOfEach_def pushNewPart_def)
  next
    case (ChatRequestAgentSubcommandPart r e g)
    with facts have a: "list_ex isAgentPart ps" and b: "list_all (\<lambda>q. isAgentPart q \<or> isTextPart q) ps"
      by simp_all
    from b have "filter isCommandPart ps = []" by (rule no_commands)
    with a assms(1) ChatRequestAgentSubcommandPart show ?thesis
      by (simp add: oneOfEach_def f ex)
  next
    case (ChatRequestSlashCommandPart r e g)
    with facts have a: "\<not> list_ex isSlashCommandPart ps" and b: "\<not> list_ex isAgentPart ps"
      by simp_all
    from b assms(1) have "\<not> list_ex isAgentSubcommandPart ps" by (auto simp: oneOfEach_def)
    with a have "filter isCommandPart ps = []" by (rule no_commands')
    with assms(1) b \<open>\<not> list_ex isAgentSubcommandPart ps\<close> ChatRequestSlashCommandPart show ?thesis
      by (simp add: oneOfEach_def f ex)
  qed
qed

text \<open>
  C2. For every message, the parts of a parse result hold at most one Agent segment, and
  at most one segment that is a SlashCommand or an AgentSubcommand, the two kinds counted
  together.
\<close>

theorem at_most_one_agent_and_one_command:
  assumes "parseChatRequest svc sessionId message = Inr r"
  shows "length (filter isAgentPart (parsedParts r)) \<le> 1
       \<and> length (filter isCommandPart (parsedParts r)) \<le> 1"
proof -
  from assms obtain parts l c where
    loop: "parseLoop svc (getDynamicReferences svc sessionId) message 0 1 1 [] = Inr (parts, l, c)"
    and r: "parsedParts r = parts \<or> parsedParts r = parts @ [textBefore message (length message) l c parts]"
    by (rule parseChatRequest_parts)
  have "oneOfEach parts"
  proof (rule parseLoop_invariant [OF loop])
    show "oneOfEach ([] :: 'a part list)" by (simp add: oneOfEach_def)
  next
    fix j l c np and ps :: "'a part list"
    assume "oneOfEach ps" "newPartAt svc (getDynamicReferences svc sessionId) message j l c ps = Inr np"
    then show "oneOfEach (pushNewPart message j l c ps np)" by (rule oneOfEach_step)
  qed
  with r show ?thesis by (auto simp: oneOfEach_def)
qed

theorem at_most_one_agent_and_one_command_witness:
  "parseChatRequest exampleServices [] (str ''!agentX /sub arg'') =
     Inr (ParsedChatRequest
       [ChatRequestAgentPart (OffsetRange 0 7) (EditorRange 1 1 1 8) agentX,
        ChatRequestTextPart (OffsetRange 7 8) (EditorRange 1 8 1 9) (str '' ''),
        ChatRequestAgentSubcommandPart (OffsetRange 8 12) (EditorRange 1 9 1 13)
          (AgentCommand (str ''sub'') (str ''a sub-command'')),
        ChatRequestTextPart (OffsetRange 12 16) (EditorRange 1 13 1 17) (str '' arg'')]
       (str ''!agentX /sub arg''))
   \<and> length (filter isAgentPart
         [ChatRequestAgentPart (OffsetRange 0 7) (EditorRange 1 1 1 8) agentX,
          ChatRequestTextPart (OffsetRange 7 8) (EditorRange 1 8 1 9) (str '' ''),
          ChatRequestAgentSubcommandPart (OffsetRange 8 12) (EditorRange 1 9 1 13)
            (AgentCommand (str ''sub'') (str ''a sub-command'')),
          ChatRequestTextPart (OffsetRange 12 16) (EditorRange 1 13 1 17) (str '' arg'') :: nat part]) \<le> 1
   \<and> length (filter isCommandPart
         [ChatRequestAgentPart (OffsetRange 0 7) (EditorRange 1 1 1 8) agentX,
          ChatRequestTextPart (OffsetRange 7 8) (EditorRange 1 8 1 9) (str '' ''),
          ChatRequestAgentSubcommandPart (OffsetRange 8 12) (EditorRange 1 9 1 13)
            (AgentCommand (str ''sub'') (str ''a sub-command'')),
          ChatRequestTextPart (OffsetRange 12 16) (EditorRange 1 13 1 17) (str '' arg'') :: nat part]) \<le> 1"
proof -
  have run: "parseChatRequest exampleServices [] (str ''!agentX /sub arg'') =
     Inr (ParsedChatRequest
       [ChatRequestAgentPart (OffsetRange 0 7) (EditorRange 1 1 1 8) agentX,
        ChatRequestTextPart (OffsetRange 7 8) (EditorRange 1 8 1 9) (str '' ''),
        ChatRequestAgentSubcommandPart (OffsetRange 8 12) (EditorRange 1 9 1 13)
          (AgentCommand (str ''sub'') (str ''a sub-command'')),
        ChatRequestTextPart (OffsetRange 12 16) (EditorRange 1 13 1 17) (str '' arg'')]
       (str ''!agentX /sub arg''))"
    by code_simp
  from at_most_one_agent_and_one_command [OF run] run show ?thesis by simp
qed


subsection \<open>C3: what a command segment covers\<close>

text \<open>
  C3 fails on the code, by the same missing \<open>^\<close>. For "/ /foo" with the command "foo"
  registered, the SlashCommand segment covers "/ /f", which is not the leader followed by
  the name of the command, "/foo".
\<close>

theorem detached_slash_covers_other_text:
  "parseChatRequest exampleServices [] (str ''/ /foo'') =
     Inr (ParsedChatRequest
            [ChatRequestSlashCommandPart (OffsetRange 0 4) (EditorRange 1 1 1 5) (SlashData (str ''foo'') []),
             ChatRequestTextPart (OffsetRange 4 6) (EditorRange 1 5 1 7) (str ''oo'')]
            (str ''/ /foo''))
   \<and> covered (str ''/ /foo'')
         (ChatRequestSlashCommandPart (OffsetRange 0 4) (EditorRange 1 1 1 5) (SlashData (str ''foo'') []) :: nat part)
       = str ''/ /f''
   \<and> str ''/ /f'' \<noteq> chatSubcommandLeader # command (SlashData (str ''foo'') [])"
  by code_simp


subsection \<open>C4: a failing enumeration of sub-commands\<close>

text \<open>
  C4, as amended. If the call that enumerates an agent's sub-commands fails, the error
  propagates: at a slash candidate where the matcher gets as far as the call, the matcher
  returns the error instead of declining, and the parse call ends with that error instead
  of a result.
\<close>

theorem enumeration_failure_propagates:
  assumes "scanTo svc (getDynamicReferences svc sessionId) message i = Inr (parts, lineNumber, column)"
      and "i < length message"
      and "message ! i = chatSubcommandLeader"
      and "i = 0 \<or> isSpace (message ! (i - 1))"
      and "slashReg (drop i message) = Some (full, cmd)"
      and "\<not> list_ex isSlashCommandPart parts"
      and "find isAgentPart parts = Some (ChatRequestAgentPart r e agent)"
      and "\<not> list_ex (\<lambda>p. nonBlankText p \<or> (\<not> isAgentPart p \<and> \<not> isTextPart p)) parts"
      and "trim (slice message (previousEnd parts) i) = []"
      and "provideSlashCommands agent = Inl err"
  shows "tryToParseSlashCommand svc (drop i message) message i (Position lineNumber column) parts = Inl err
       \<and> parseChatRequest svc sessionId message = Inl err"
proof -
  have m: "tryToParseSlashCommand svc (drop i message) message i (Position lineNumber column) parts = Inl err"
    using assms(5-10) by (simp add: tryToParseSlashCommand_def)
  have "newPartAt svc (getDynamicReferences svc sessionId) message i lineNumber column parts = Inl err"
    using assms(3,4) m
    by (simp add: newPartAt_def chatSubcommandLeader_def chatAgentLeader_def chatFileVariableLeader_def)
  then have "parseLoop svc (getDynamicReferences svc sessionId) message i lineNumber column parts = Inl err"
    using assms(2) by (simp add: step_err)
  moreover have "parseLoop svc (getDynamicReferences svc sessionId) message 0 1 1 [] =
       parseLoop svc (getDynamicReferences svc sessionId) message i lineNumber column parts"
    using parseLoop_scanTo [of i message svc "getDynamicReferences svc sessionId"] assms(1,2) by simp
  ultimately have "parseChatRequest svc sessionId message = Inl err"
    by (simp add: parseChatRequest_def)
  with m show ?thesis by simp
qed

theorem enumeration_failure_propagates_witness:
  "scanTo exampleServices (getDynamicReferences exampleServices []) (str ''!down /sub arg'') 6 =
     Inr ([ChatRequestAgentPart (OffsetRange 0 5) (EditorRange 1 1 1 6) agentDown], 1, 7)
   \<and> str ''!down /sub arg'' ! 6 = chatSubcommandLeader
   \<and> isSpace (str ''!down /sub arg'' ! 5)
   \<and> slashReg (drop 6 (str ''!down /sub arg'')) = Some (str ''/sub'', str ''sub'')
   \<and> find isAgentPart [ChatRequestAgentPart (OffsetRange 0 5) (EditorRange 1 1 1 6) agentDown :: nat part]
       = Some (ChatRequestAgentPart (OffsetRange 0 5) (EditorRange 1 1 1 6) agentDown)
   \<and> trim (slice (str ''!down /sub arg'') 5 6) = []
   \<and> provideSlashCommands agentDown = Inl (Error (str ''unavailable''))
   \<and> tryToParseSlashCommand exampleServices (str ''/sub arg'') (str ''!down /sub arg'') 6 (Position 1 7)
        [ChatRequestAgentPart (OffsetRange 0 5) (EditorRange 1 1 1 6) agentDown]
       = Inl (Error (str ''unavailable''))
   \<and> parseChatRequest exampleServices [] (str ''!down /sub arg'') = Inl (Error (str ''unavailable''))"
proof -
  let ?m = "str ''!down /sub arg''"
  let ?ps = "[ChatRequestAgentPart (OffsetRange 0 5) (EditorRange 1 1 1 6) agentDown :: nat part]"
  have 1: "scanTo exampleServices (getDynamicReferences exampleServices []) ?m 6 = Inr (?ps, 1, 7)"
    by code_simp
  have 2: "6 < length ?m" by (simp add: str_def)
  have 3: "?m ! 6 = chatSubcommandLeader" by (simp add: str_def chatSubcommandLeader_def)
  have 4: "(6::nat) = 0 \<or> isSpace (?m ! (6 - 1))" by (simp add: str_def isSpace_def)
  have 5: "slashReg (drop 6 ?m) = Some (str ''/sub'', str ''sub'')" by code_simp
  have 6: "\<not> list_ex isSlashCommandPart ?ps" by simp
  have 7: "find isAgentPart ?ps = Some (ChatRequestAgentPart (OffsetRange 0 5) (EditorRange 1 1 1 6) agentDown)"
    by simp
  have 8: "\<not> list_ex (\<lambda>p. nonBlankText p \<or> (\<not> isAgentPart p \<and> \<not> isTextPart p)) ?ps" by simp
  have 9: "trim (slice ?m (previousEnd ?ps) 6) = []" by code_simp
  have 10: "provideSlashCommands agentDown = Inl (Error (str ''unavailable''))"
    by (simp add: agentDown_def)
  have d: "drop 6 ?m = str ''/sub arg''" by (simp add: str_def)
  have pe: "previousEnd ?ps = 5" by (simp add: previousEnd_def atLast_def)
  from enumeration_failure_propagates [OF 1 2 3 4 5 6 7 8 9 10] 1 3 4 5 7 9 10
  show ?thesis unfolding d pe by simp
qed

text \<open>
  C4 as stated fails: with an agent whose enumeration rejects, the matcher does not
  decline and the parse of "!down /sub" returns the error, not a result.
\<close>

theorem enumeration_failure_not_absorbed:
  "tryToParseSlashCommand exampleServices (str ''/sub'') (str ''!down /sub'') 6 (Position 1 7)
        [ChatRequestAgentPart (OffsetRange 0 5) (EditorRange 1 1 1 6) agentDown]
       = Inl (Error (str ''unavailable''))
   \<and> parseChatRequest exampleServices [] (str ''!down /sub'') = Inl (Error (str ''unavailable''))"
  by code_simp


subsection \<open>C5: the argument of a variable\<close>

text \<open>
  C5, as amended. For the message "#myvar:3" where "myvar" is a registered variable, the
  parse result is a single Variable segment covering the whole string whose captured
  argument is the matched text ":3", the colon included; it is a string, and nothing
  turns it into a number. For "#myvar", where the suffix is absent, the captured argument
  is the empty string.
\<close>

theorem variable_argument_is_matched_text:
  "hasVariable svc (str ''myvar'') \<longrightarrow>
     parseChatRequest svc sessionId (str ''#myvar:3'') =
       Inr (ParsedChatRequest
              [ChatRequestVariablePart (OffsetRange 0 8) (EditorRange 1 1 1 9) (str ''myvar'') (str '':3'')]
              (str ''#myvar:3''))
   \<and> parseChatRequest svc sessionId (str ''#myvar'') =
       Inr (ParsedChatRequest
              [ChatRequestVariablePart (OffsetRange 0 6) (EditorRange 1 1 1 7) (str ''myvar'') []]
              (str ''#myvar''))"
  by (simp add: eval_defs parseLoop.simps)

theorem variable_argument_is_matched_text_witness:
  "hasVariable exampleServices (str ''myvar'')
   \<and> parseChatRequest exampleServices [] (str ''#myvar:3'') =
       Inr (ParsedChatRequest
              [ChatRequestVariablePart (OffsetRange 0 8) (EditorRange 1 1 1 9) (str ''myvar'') (str '':3'')]
              (str ''#myvar:3''))
   \<and> parseChatRequest exampleServices [] (str ''#myvar'') =
       Inr (ParsedChatRequest
              [ChatRequestVariablePart (OffsetRange 0 6) (EditorRange 1 1 1 7) (str ''myvar'') []]
              (str ''#myvar''))"
proof -
  have reg: "hasVariable exampleServices (str ''myvar'')" by (simp add: exampleServices_def)
  from variable_argument_is_matched_text [of exampleServices "[]"] reg show ?thesis by blast
qed

text \<open>
  C5 as stated fails: the argument captured for "#myvar:3" is not the number 3, nor its
  numeral "3".
\<close>

theorem variable_argument_not_numeric:
  "parseChatRequest exampleServices [] (str ''#myvar:3'') =
     Inr (ParsedChatRequest
            [ChatRequestVariablePart (OffsetRange 0 8) (EditorRange 1 1 1 9) (str ''myvar'') (str '':3'')]
            (str ''#myvar:3''))
   \<and> variableArgs
        [ChatRequestVariablePart (OffsetRange 0 8) (EditorRange 1 1 1 9) (str ''myvar'') (str '':3'') :: nat part]
       = [str '':3'']
   \<and> str '':3'' \<noteq> str ''3''"
  by code_simp


subsection \<open>C6: dynamic references\<close>

text \<open>
  What holds of C6 on the code: a DynamicReference segment of a parse result starts at a
  # that the variable matcher declined, and carries the payload of the first record of the
  list read at the start of the call whose start position is the position of the
  candidate, the start of the segment's own editor range.
\<close>

lemma dynamic_reference_resolved:
  assumes "parseChatRequest svc sessionId message = Inr r"
      and "ChatRequestDynamicReferencePart rg er n a d \<in> set (parsedParts r)"
  shows "message ! start rg = chatFileVariableLeader
       \<and> tryToParseVariable svc (drop (start rg) message) (start rg)
            (Position (startLineNumber er) (startColumn er)) ps = None
       \<and> (\<exists>ref. find (\<lambda>x. startLineNumber (referenceRange x) = startLineNumber er
                          \<and> startColumn (referenceRange x) = startColumn er)
                    (getDynamicReferences svc sessionId) = Some ref
                \<and> d = referenceData ref)"
proof -
  let ?refs = "getDynamicReferences svc sessionId"
  let ?Q = "\<lambda>rg er d. message ! start rg = chatFileVariableLeader
       \<and> tryToParseVariable svc (drop (start rg) message) (start rg)
            (Position (startLineNumber er) (startColumn er)) ps = None
       \<and> (\<exists>ref. find (\<lambda>x. startLineNumber (referenceRange x) = startLineNumber er
                          \<and> startColumn (referenceRange x) = startColumn er) ?refs = Some ref
                \<and> d = referenceData ref)"
  let ?I = "\<lambda>qs :: 'a part list. \<forall>rg er n a d.
              ChatRequestDynamicReferencePart rg er n a d \<in> set qs \<longrightarrow> ?Q rg er d"
  from assms(1) obtain parts l c where
    loop: "parseLoop svc ?refs message 0 1 1 [] = Inr (parts, l, c)"
    and r: "parsedParts r = parts \<or> parsedParts r = parts @ [textBefore message (length message) l c parts]"
    by (rule parseChatRequest_parts)
  have "?I parts"
  proof (rule parseLoop_invariant [OF loop, where I = ?I])
    show "?I []" by simp
  next
    fix j l c np and qs :: "'a part list"
    assume I: "?I qs" and np: "newPartAt svc ?refs message j l c qs = Inr np"
    show "?I (pushNewPart message j l c qs np)"
    proof (cases np)
      case None
      with I show ?thesis by simp
    next
      case (Some q)
      have "?Q rg' er' d'" if q: "q = ChatRequestDynamicReferencePart rg' er' n' a' d'" for rg' er' n' a' d'
      proof -
        note f = newPartAt_dynamic [OF np [unfolded Some q]]
        from f have dyn: "tryToParseDynamicVariable (drop j message) j (Position l c) ?refs
           = Some (ChatRequestDynamicReferencePart rg' er' n' a' d')" by simp
        from tryToParseDynamicVariable_payload [OF dyn]
        obtain ref where e: "startLineNumber er' = l" "startColumn er' = c" "start rg' = j"
          and ref: "find (\<lambda>x. startLineNumber (referenceRange x) = l
                         \<and> startColumn (referenceRange x) = c) ?refs = Some ref" "d' = referenceData ref"
          by auto
        from f have "tryToParseVariable svc (drop j message) j (Position l c) ps = None"
          using tryToParseVariable_parts [of svc "drop j message" j "Position l c" ps qs] by simp
        with f e ref show ?thesis by simp
      qed
      with I Some show ?thesis by (auto simp: pushNewPart_def textBefore_def)
    qed
  qed
  moreover have "ChatRequestDynamicReferencePart rg er n a d \<in> set parts"
    using r assms(2) by (auto simp: textBefore_def)
  ultimately show ?thesis by blast
qed

text \<open>
  C6 fails on the code in its last part, by the same missing \<open>^\<close>. In "/ #x:y /foo" the
  candidate at offset 2 is declined by the variable matcher and matches the pattern of a
  dynamic reference, and no reference is recorded at line 1, column 3; it ends up inside
  the SlashCommand segment laid over offsets 0 to 4, not in a Text segment.
\<close>

theorem unresolved_reference_under_slash_segment:
  "tryToParseVariable exampleServices (str ''#x:y /foo'') 2 (Position 1 3)
      [ChatRequestSlashCommandPart (OffsetRange 0 4) (EditorRange 1 1 1 5) (SlashData (str ''foo'') [])] = None
   \<and> variableWithArgReg (str ''#x:y /foo'') = Some (str ''#x:y'', str ''x'', str ''y'')
   \<and> find (\<lambda>r. startLineNumber (referenceRange r) = 1 \<and> startColumn (referenceRange r) = 3)
         (getDynamicReferences exampleServices []) = None
   \<and> parseChatRequest exampleServices [] (str ''/ #x:y /foo'') =
     Inr (ParsedChatRequest
            [ChatRequestSlashCommandPart (OffsetRange 0 4) (EditorRange 1 1 1 5) (SlashData (str ''foo'') []),
             ChatRequestTextPart (OffsetRange 4 11) (EditorRange 1 5 1 12) (str '':y /foo'')]
            (str ''/ #x:y /foo''))
   \<and> \<not> coveredByText
         [ChatRequestSlashCommandPart (OffsetRange 0 4) (EditorRange 1 1 1 5) (SlashData (str ''foo'') []),
          ChatRequestTextPart (OffsetRange 4 11) (EditorRange 1 5 1 12) (str '':y /foo'') :: nat part] 2"
  by code_simp


subsection \<open>C7: the agent comes first\<close>

lemma agent_after_blank:
  assumes "parseChatRequest svc sessionId message = Inr r"
      and "p \<in> set (parsedParts r)" "isAgentPart p" "k < start (partRange p)"
  shows "isSpace (message ! k)"
proof -
  let ?I = "\<lambda>ps :: 'a part list. \<forall>p\<in>set ps. isAgentPart p \<longrightarrow>
              (\<forall>k. k < start (partRange p) \<longrightarrow> isSpace (message ! k))"
  from assms(1) obtain parts l c where
    loop: "parseLoop svc (getDynamicReferences svc sessionId) message 0 1 1 [] = Inr (parts, l, c)"
    and r: "parsedParts r = parts \<or> parsedParts r = parts @ [textBefore message (length message) l c parts]"
    by (rule parseChatRequest_parts)
  have "?I parts"
  proof (rule parseLoop_invariant [OF loop, where I = ?I])
    show "?I []" by simp
  next
    fix j l c np and ps :: "'a part list"
    assume j: "j < length message" and I: "?I ps"
       and np: "newPartAt svc (getDynamicReferences svc sessionId) message j l c ps = Inr np"
    show "?I (pushNewPart message j l c ps np)"
    proof (cases np)
      case None
      with I show ?thesis by simp
    next
      case (Some q)
      note facts = newPartAt_Some [OF np [unfolded Some]]
      have "\<forall>k. k < start (partRange q) \<longrightarrow> isSpace (message ! k)" if "isAgentPart q"
      proof (intro allI impI)
        fix k assume "k < start (partRange q)"
        with facts have k: "k < j" by simp
        from facts that have "trim (slice message 0 j) = []" by simp
        from blank_prefix [OF this k] j show "isSpace (message ! k)" by simp
      qed
      with I Some show ?thesis by (auto simp: pushNewPart_def)
    qed
  qed
  with r assms(2,3,4) show ?thesis by auto
qed

text \<open>
  C7. The agent matcher declines whenever a segment accumulated so far is a non-blank Text
  segment or is not an Agent segment, and an Agent segment of a parse result is the first
  content of the message that is not white space: every character before it is white
  space. For "!agentX do the thing" with "agentX" registered, the result is an Agent
  segment for "!agentX" followed by a Text segment for " do the thing".
\<close>

theorem agent_must_come_first:
  "(list_ex (\<lambda>q. nonBlankText q \<or> \<not> isAgentPart q) parts \<longrightarrow>
      tryToParseAgent svc remaining fullMessage offset pos parts = None)
   \<and> (parseChatRequest svc sessionId message = Inr r \<longrightarrow>
        (\<forall>p\<in>set (parsedParts r). isAgentPart p \<longrightarrow> (\<forall>k. k < start (partRange p) \<longrightarrow> isSpace (message ! k))))
   \<and> (getAgent svc (str ''agentX'') = Some a \<longrightarrow>
        parseChatRequest svc sessionId (str ''!agentX do the thing'') =
          Inr (ParsedChatRequest
                 [ChatRequestAgentPart (OffsetRange 0 7) (EditorRange 1 1 1 8) a,
                  ChatRequestTextPart (OffsetRange 7 20) (EditorRange 1 8 1 21) (str '' do the thing'')]
                 (str ''!agentX do the thing'')))"
proof (intro conjI impI ballI allI)
  assume "list_ex (\<lambda>q. nonBlankText q \<or> \<not> isAgentPart q) parts"
  then show "tryToParseAgent svc remaining fullMessage offset pos parts = None"
    using tryToParseAgent_Some [of svc remaining fullMessage offset pos parts]
    by (cases "tryToParseAgent svc remaining fullMessage offset pos parts") auto
next
  fix p k
  assume "parseChatRequest svc sessionId message = Inr r" "p \<in> set (parsedParts r)"
         "isAgentPart p" "k < start (partRange p)"
  then show "isSpace (message ! k)" by (rule agent_after_blank)
next
  assume "getAgent svc (str ''agentX'') = Some a"
  then show "parseChatRequest svc sessionId (str ''!agentX do the thing'') =
          Inr (ParsedChatRequest
                 [ChatRequestAgentPart (OffsetRange 0 7) (EditorRange 1 1 1 8) a,
                  ChatRequestTextPart (OffsetRange 7 20) (EditorRange 1 8 1 21) (str '' do the thing'')]
                 (str ''!agentX do the thing''))"
    by (simp add: eval_defs parseLoop.simps)
qed

theorem agent_must_come_first_witness:
  "list_ex (\<lambda>q. nonBlankText q \<or> \<not> isAgentPart q)
      [ChatRequestVariablePart (OffsetRange 0 6) (EditorRange 1 1 1 7) (str ''myvar'') [] :: nat part]
   \<and> tryToParseAgent exampleServices (str ''!agentX'') (str ''#myvar !agentX'') 7 (Position 1 8)
        [ChatRequestVariablePart (OffsetRange 0 6) (EditorRange 1 1 1 7) (str ''myvar'') []] = None
   \<and> parseChatRequest exampleServices [] (str ''  !agentX'') =
        Inr (ParsedChatRequest
               [ChatRequestTextPart (OffsetRange 0 2) (EditorRange 1 1 1 3) (str ''  ''),
                ChatRequestAgentPart (OffsetRange 2 9) (EditorRange 1 3 1 10) agentX]
               (str ''  !agentX''))
   \<and> isSpace (str ''  !agentX'' ! 0) \<and> isSpace (str ''  !agentX'' ! 1)
   \<and> getAgent exampleServices (str ''agentX'') = Some agentX
   \<and> parseChatRequest exampleServices [] (str ''!agentX do the thing'') =
        Inr (ParsedChatRequest
               [ChatRequestAgentPart (OffsetRange 0 7) (EditorRange 1 1 1 8) agentX,
                ChatRequestTextPart (OffsetRange 7 20) (EditorRange 1 8 1 21) (str '' do the thing'')]
               (str ''!agentX do the thing''))"
proof -
  let ?v = "ChatRequestVariablePart (OffsetRange 0 6) (EditorRange 1 1 1 7) (str ''myvar'') [] :: nat part"
  let ?r = "ParsedChatRequest
               [ChatRequestTextPart (OffsetRange 0 2) (EditorRange 1 1 1 3) (str ''  ''),
                ChatRequestAgentPart (OffsetRange 2 9) (EditorRange 1 3 1 10) agentX :: nat part]
               (str ''  !agentX'')"
  have before: "list_ex (\<lambda>q. nonBlankText q \<or> \<not> isAgentPart q) [?v]" by simp
  have run: "parseChatRequest exampleServices [] (str ''  !agentX'') = Inr ?r" by code_simp
  have reg: "getAgent exampleServices (str ''agentX'') = Some agentX"
    by (simp add: exampleServices_def)
  note inst = agent_must_come_first [of "[?v]" exampleServices "str ''!agentX''"
      "str ''#myvar !agentX''" 7 "Position 1 8" "[]" "str ''  !agentX''" ?r agentX]
  from inst before have 1: "tryToParseAgent exampleServices (str ''!agentX'') (str ''#myvar !agentX'')
      7 (Position 1 8) [?v] = None" by blast
  from inst run have 2: "\<forall>p\<in>set (parsedParts ?r). isAgentPart p \<longrightarrow>
      (\<forall>k. k < start (partRange p) \<longrightarrow> isSpace (str ''  !agentX'' ! k))" by blast
  then have 3: "isSpace (str ''  !agentX'' ! 0) \<and> isSpace (str ''  !agentX'' ! 1)" by simp
  from inst reg have 4: "parseChatRequest exampleServices [] (str ''!agentX do the thing'') =
        Inr (ParsedChatRequest
               [ChatRequestAgentPart (OffsetRange 0 7) (EditorRange 1 1 1 8) agentX,
                ChatRequestTextPart (OffsetRange 7 20) (EditorRange 1 8 1 21) (str '' do the thing'')]
               (str ''!agentX do the thing''))" by blast
  from before 1 run 3 reg 4 show ?thesis by blast
qed


subsection \<open>C8: a leader inside a word\<close>

lemma gated_result:
  assumes "parseChatRequest svc sessionId message = Inr r"
      and "p \<in> set (parsedParts r)" "\<not> isTextPart p"
  shows "start (partRange p) = 0 \<or> isSpace (message ! (start (partRange p) - 1))"
proof -
  let ?I = "\<lambda>ps :: 'a part list. \<forall>p\<in>set ps. \<not> isTextPart p \<longrightarrow>
              start (partRange p) = 0 \<or> isSpace (message ! (start (partRange p) - 1))"
  from assms(1) obtain parts l c where
    loop: "parseLoop svc (getDynamicReferences svc sessionId) message 0 1 1 [] = Inr (parts, l, c)"
    and r: "parsedParts r = parts \<or> parsedParts r = parts @ [textBefore message (length message) l c parts]"
    by (rule parseChatRequest_parts)
  have "?I parts"
  proof (rule parseLoop_invariant [OF loop, where I = ?I])
    show "?I []" by simp
  next
    fix j l c np and ps :: "'a part list"
    assume I: "?I ps" and np: "newPartAt svc (getDynamicReferences svc sessionId) message j l c ps = Inr np"
    show "?I (pushNewPart message j l c ps np)"
    proof (cases np)
      case None
      with I show ?thesis by simp
    next
      case (Some q)
      from newPartAt_Some [OF np [unfolded Some]]
      have "start (partRange q) = 0 \<or> isSpace (message ! (start (partRange q) - 1))" by auto
      with I Some show ?thesis by (auto simp: pushNewPart_def)
    qed
  qed
  with r assms(2,3) show ?thesis by auto
qed

text \<open>
  C8. A leader character (!, # or /) that is not the first character of the message and
  is not immediately preceded by a white space character never starts a segment other than
  Text: no such segment of a parse result has its start offset there. The message
  "x!agent" parses to a single Text segment over the whole string, whatever the services
  register, also when "agent" is a registered agent.
\<close>

theorem leader_inside_word_starts_no_segment:
  "(parseChatRequest svc sessionId message = Inr r \<longrightarrow>
      (\<forall>i. 0 < i \<and> i < length message \<and> isLeader (message ! i) \<and> \<not> isSpace (message ! (i - 1))
          \<longrightarrow> \<not> list_ex (\<lambda>p. \<not> isTextPart p \<and> startsAt i p) (parsedParts r)))
   \<and> parseChatRequest svc sessionId (str ''x!agent'') =
       Inr (ParsedChatRequest
              [ChatRequestTextPart (OffsetRange 0 7) (EditorRange 1 1 1 8) (str ''x!agent'')]
              (str ''x!agent''))"
proof (intro conjI impI allI)
  fix i
  assume run: "parseChatRequest svc sessionId message = Inr r"
     and i: "0 < i \<and> i < length message \<and> isLeader (message ! i) \<and> \<not> isSpace (message ! (i - 1))"
  show "\<not> list_ex (\<lambda>p. \<not> isTextPart p \<and> startsAt i p) (parsedParts r)"
  proof
    assume "list_ex (\<lambda>p. \<not> isTextPart p \<and> startsAt i p) (parsedParts r)"
    then obtain p where p: "p \<in> set (parsedParts r)" "\<not> isTextPart p" "start (partRange p) = i"
      by (auto simp: list_ex_iff startsAt_def)
    from gated_result [OF run p(1,2)] p(3) i show False by simp
  qed
next
  show "parseChatRequest svc sessionId (str ''x!agent'') =
       Inr (ParsedChatRequest
              [ChatRequestTextPart (OffsetRange 0 7) (EditorRange 1 1 1 8) (str ''x!agent'')]
              (str ''x!agent''))"
    by (simp add: eval_defs parseLoop.simps)
qed

theorem leader_inside_word_starts_no_segment_witness:
  "parseChatRequest exampleServices [] (str ''x!agentX'') =
     Inr (ParsedChatRequest
            [ChatRequestTextPart (OffsetRange 0 8) (EditorRange 1 1 1 9) (str ''x!agentX'')]
            (str ''x!agentX''))
   \<and> getAgent exampleServices (str ''agentX'') = Some agentX
   \<and> isLeader (str ''x!agentX'' ! 1) \<and> \<not> isSpace (str ''x!agentX'' ! 0)
   \<and> \<not> list_ex (\<lambda>p. \<not> isTextPart p \<and> startsAt 1 p)
         [ChatRequestTextPart (OffsetRange 0 8) (EditorRange 1 1 1 9) (str ''x!agentX'') :: nat part]"
proof -
  have run: "parseChatRequest exampleServices [] (str ''x!agentX'') =
     Inr (ParsedChatRequest
            [ChatRequestTextPart (OffsetRange 0 8) (EditorRange 1 1 1 9) (str ''x!agentX'')]
            (str ''x!agentX''))"
    by code_simp
  have i: "0 < (1::nat) \<and> 1 < length (str ''x!agentX'') \<and> isLeader (str ''x!agentX'' ! 1)
           \<and> \<not> isSpace (str ''x!agentX'' ! (1 - 1))"
    by (simp add: str_def isLeader_def chatAgentLeader_def isSpace_def)
  have reg: "getAgent exampleServices (str ''agentX'') = Some agentX"
    by (simp add: exampleServices_def)
  from leader_inside_word_starts_no_segment
         [of exampleServices "[]" "str ''x!agentX''" "ParsedChatRequest
            [ChatRequestTextPart (OffsetRange 0 8) (EditorRange 1 1 1 9) (str ''x!agentX'')]
            (str ''x!agentX'')"]
       run i reg
  show ?thesis by simp
qed


subsection \<open>C9: the list of dynamic references\<close>

text \<open>
  C9 speaks of how often and when the service is called, and of other tasks changing the
  session's list while the parse is suspended. What this model can say of it: the lists of
  the service are read once, into the list the loop is given, and no step of the loop
  reads them again. With the lists of the service replaced by any others, each step and
  the whole loop return the same, and a parse depends on the lists only through the one of
  its session.
\<close>

lemma matchers_snapshot:
  "tryToParseVariable (svc\<lparr>getDynamicReferences := g\<rparr>) m off pos ps = tryToParseVariable svc m off pos ps"
  "tryToParseAgent (svc\<lparr>getDynamicReferences := g\<rparr>) m full off pos ps = tryToParseAgent svc m full off pos ps"
  "tryToParseSlashCommand (svc\<lparr>getDynamicReferences := g\<rparr>) m full off pos ps
     = tryToParseSlashCommand svc m full off pos ps"
  by (simp_all add: tryToParseVariable_def tryToParseAgent_def tryToParseSlashCommand_def
        cong: option.case_cong if_cong part.case_cong sum.case_cong prod.case_cong)

lemma newPartAt_snapshot:
  "newPartAt (svc\<lparr>getDynamicReferences := g\<rparr>) refs msg i l c ps = newPartAt svc refs msg i l c ps"
  by (simp add: newPartAt_def matchers_snapshot Let_def cong: if_cong)

lemma parseLoop_snapshot:
  "parseLoop (svc\<lparr>getDynamicReferences := g\<rparr>) refs msg i l c ps = parseLoop svc refs msg i l c ps"
proof (induction svc refs msg i l c ps rule: parseLoop.induct)
  case (1 svc refs msg i l c ps)
  show ?case
  proof (cases "i < length msg")
    case False
    then show ?thesis by (simp add: step_end)
  next
    case True
    show ?thesis
    proof (cases "newPartAt svc refs msg i l c ps")
      case (Inl err)
      with True show ?thesis by (simp add: step_err newPartAt_snapshot)
    next
      case (Inr np)
      then have np': "newPartAt (svc\<lparr>getDynamicReferences := g\<rparr>) refs msg i l c ps = Inr np"
        by (simp add: newPartAt_snapshot)
      show ?thesis
      proof (cases "msg ! i = 10")
        case nl: True
        from "1.IH"(1) [OF True Inr nl] step_nl [OF True Inr nl] step_nl [OF True np' nl]
        show ?thesis by simp
      next
        case nl: False
        from "1.IH"(2) [OF True Inr nl] step_other [OF True Inr nl] step_other [OF True np' nl]
        show ?thesis by simp
      qed
    qed
  qed
qed

lemma parseChatRequest_snapshot:
  assumes "g sessionId = getDynamicReferences svc sessionId"
  shows "parseChatRequest (svc\<lparr>getDynamicReferences := g\<rparr>) sessionId msg = parseChatRequest svc sessionId msg"
  using assms by (simp add: parseChatRequest_def parseLoop_snapshot)


subsection \<open>C10: the empty agent name\<close>

lemma lone_leader_at_start_is_text:
  assumes run: "parseChatRequest svc sessionId message = Inr r"
      and lone: "message = chatAgentLeader # rest" "rest = [] \<or> isSpace (hd rest)"
      and none: "getAgent svc [] = None"
  shows "coveredByText (parsedParts r) 0"
proof -
  let ?refs = "getDynamicReferences svc sessionId"
  let ?H = "\<lambda>ps :: 'a part list. ps \<noteq> [] \<longrightarrow>
              isTextPart (hd ps) \<and> start (partRange (hd ps)) = 0 \<and> 0 < endExclusive (partRange (hd ps))"
  let ?I = "\<lambda>j (ps :: 'a part list). if j = 0 then ps = [] else ?H ps"
  from run obtain parts l c where
    loop: "parseLoop svc ?refs message 0 1 1 [] = Inr (parts, l, c)"
    and r: "parsedParts r = (if previousEnd parts < length message
                      then parts @ [textBefore message (length message) l c parts] else parts)"
    by (rule parseChatRequest_result)
  from lone have len: "0 < length message" by simp
  have first: "newPartAt svc ?refs message 0 l c [] = Inr None" for l c
  proof -
    from lone have "agentReg (drop 0 message) = Some ([chatAgentLeader], [])"
      by (simp add: chatAgentLeader_def agentReg_lone)
    with none have "tryToParseAgent svc (drop 0 message) message 0 (Position l c) [] = None"
      by (simp add: tryToParseAgent_def)
    with lone(1) show ?thesis
      by (simp add: newPartAt_def chatAgentLeader_def chatFileVariableLeader_def)
  qed
  have "?I (length message) parts"
  proof (rule parseLoop_invariant_at [OF loop, where I = ?I])
    show "?I 0 []" by simp
  next
    show "0 \<le> length message" by simp
  next
    fix j l c np and ps :: "'a part list"
    assume j: "j < length message" and I: "?I j ps"
       and np: "newPartAt svc ?refs message j l c ps = Inr np"
    show "?I (Suc j) (pushNewPart message j l c ps np)"
    proof (cases "j = 0")
      case True
      with I have "ps = []" by simp
      with np True first [of l c] have "np = None" by simp
      with \<open>ps = []\<close> show ?thesis by simp
    next
      case False
      with I have H: "?H ps" by simp
      show ?thesis
      proof (cases np)
        case None
        with H show ?thesis by simp
      next
        case (Some q)
        with False H show ?thesis
          by (cases ps) (simp_all add: pushNewPart_def)
      qed
    qed
  qed
  with len have H: "?H parts" by simp
  show ?thesis
  proof (cases "parts = []")
    case True
    with len r show ?thesis by (simp add: coveredByText_def)
  next
    case False
    with H have "isTextPart (hd parts) \<and> start (partRange (hd parts)) \<le> 0
        \<and> 0 < endExclusive (partRange (hd parts))" by simp
    moreover from False r have "hd parts \<in> set (parsedParts r)" by (auto split: if_splits)
    ultimately show ?thesis unfolding coveredByText_def list_ex_iff by blast
  qed
qed

text \<open>
  What holds of C10 on the code. The agent pattern accepts an empty name: a lone ! (one
  followed by white space or by the end of the text) matches with the empty string as the
  name, so the matcher asks the agent service for the agent named by the empty string and
  declines when there is none. In a message that begins with such a !, the character then
  ends up covered by a Text segment. For the message "!" the parse result is the Agent
  segment of whatever agent the service returns for the empty name and, when it returns
  none, one Text segment that covers the character.
\<close>

lemma lone_agent_leader_queries_empty_name:
  "((rest = [] \<or> isSpace (hd rest)) \<longrightarrow>
      agentReg (chatAgentLeader # rest) = Some ([chatAgentLeader], [])
      \<and> (getAgent svc [] = None \<longrightarrow>
           tryToParseAgent svc (chatAgentLeader # rest) fullMessage offset pos parts = None
           \<and> (parseChatRequest svc sessionId (chatAgentLeader # rest) = Inr r \<longrightarrow>
                coveredByText (parsedParts r) 0)))
   \<and> parseChatRequest svc sessionId (str ''!'') =
       Inr (ParsedChatRequest
              (case getAgent svc [] of
                 None \<Rightarrow> [ChatRequestTextPart (OffsetRange 0 1) (EditorRange 1 1 1 2) (str ''!'')]
               | Some agent \<Rightarrow> [ChatRequestAgentPart (OffsetRange 0 1) (EditorRange 1 1 1 2) agent])
              (str ''!''))"
proof (intro conjI impI)
  assume lone: "rest = [] \<or> isSpace (hd rest)"
  then show reg: "agentReg (chatAgentLeader # rest) = Some ([chatAgentLeader], [])"
    by (simp add: chatAgentLeader_def agentReg_lone)
  assume none: "getAgent svc [] = None"
  with reg show "tryToParseAgent svc (chatAgentLeader # rest) fullMessage offset pos parts = None"
    by (simp add: tryToParseAgent_def)
  assume "parseChatRequest svc sessionId (chatAgentLeader # rest) = Inr r"
  from lone_leader_at_start_is_text [OF this refl lone none]
  show "coveredByText (parsedParts r) 0" .
next
  show "parseChatRequest svc sessionId (str ''!'') =
       Inr (ParsedChatRequest
              (case getAgent svc [] of
                 None \<Rightarrow> [ChatRequestTextPart (OffsetRange 0 1) (EditorRange 1 1 1 2) (str ''!'')]
               | Some agent \<Rightarrow> [ChatRequestAgentPart (OffsetRange 0 1) (EditorRange 1 1 1 2) agent])
              (str ''!''))"
    by (cases "getAgent svc []") (simp_all add: eval_defs parseLoop.simps)
qed

lemma lone_agent_leader_queries_empty_name_example:
  "isSpace (hd (str '' /foo''))
   \<and> agentReg (str ''! /foo'') = Some (str ''!'', [])
   \<and> getAgent exampleServices [] = None
   \<and> tryToParseAgent exampleServices (str ''! /foo'') (str ''! /foo'') 0 (Position 1 1) [] = None
   \<and> parseChatRequest exampleServices [] (str ''! /foo'') =
       Inr (ParsedChatRequest
              [ChatRequestTextPart (OffsetRange 0 2) (EditorRange 1 1 1 3) (str ''! ''),
               ChatRequestSlashCommandPart (OffsetRange 2 6) (EditorRange 1 3 1 7) (SlashData (str ''foo'') [])]
              (str ''! /foo''))
   \<and> coveredByText
        [ChatRequestTextPart (OffsetRange 0 2) (EditorRange 1 1 1 3) (str ''! ''),
         ChatRequestSlashCommandPart (OffsetRange 2 6) (EditorRange 1 3 1 7) (SlashData (str ''foo'') []) :: nat part] 0
   \<and> parseChatRequest exampleServices [] (str ''!'') =
       Inr (ParsedChatRequest
              [ChatRequestTextPart (OffsetRange 0 1) (EditorRange 1 1 1 2) (str ''!'')] (str ''!''))"
proof -
  let ?r = "ParsedChatRequest
              [ChatRequestTextPart (OffsetRange 0 2) (EditorRange 1 1 1 3) (str ''! ''),
               ChatRequestSlashCommandPart (OffsetRange 2 6) (EditorRange 1 3 1 7) (SlashData (str ''foo'') []) :: nat part]
              (str ''! /foo'')"
  have sp: "str '' /foo'' = [] \<or> isSpace (hd (str '' /foo''))"
    by (simp add: str_def isSpace_def)
  have none: "getAgent exampleServices [] = None"
    by (simp add: exampleServices_def str_def)
  have s: "chatAgentLeader # str '' /foo'' = str ''! /foo''" "[chatAgentLeader] = str ''!''"
    by (simp_all add: str_def chatAgentLeader_def)
  have run: "parseChatRequest exampleServices [] (str ''! /foo'') = Inr ?r" by code_simp
  note inst = lone_agent_leader_queries_empty_name
         [of "str '' /foo''" exampleServices "str ''! /foo''" 0 "Position 1 1" "[]" "[]" ?r,
          unfolded s]
  from inst sp have 1: "agentReg (str ''! /foo'') = Some (str ''!'', [])" by blast
  from inst sp none have 2:
    "tryToParseAgent exampleServices (str ''! /foo'') (str ''! /foo'') 0 (Position 1 1) [] = None"
    by blast
  from inst sp none run have 3: "coveredByText (parsedParts ?r) 0" by blast
  from inst none have 4: "parseChatRequest exampleServices [] (str ''!'') =
       Inr (ParsedChatRequest
              [ChatRequestTextPart (OffsetRange 0 1) (EditorRange 1 1 1 2) (str ''!'')] (str ''!''))"
    by simp
  from sp 1 none 2 run 3 4 show ?thesis by (simp add: str_def isSpace_def)
qed

text \<open>
  C10 fails on the code in its last part, by the missing \<open>^\<close> of \<open>slashReg\<close>. In
  "/ ! /foo", with the command "foo" registered, the ! at offset 2 follows white space and
  is followed by white space: the agent pattern matches it with the empty name, the agent
  service has no agent of that name, and the matcher declines. The character does not end
  up in a Text segment: it lies inside the SlashCommand segment laid over offsets 0 to 4,
  which covers "/ ! ".
\<close>

theorem lone_agent_leader_under_slash_segment:
  "isSpace (str ''/ ! /foo'' ! 1)
   \<and> str ''/ ! /foo'' ! 2 = chatAgentLeader
   \<and> agentReg (drop 2 (str ''/ ! /foo'')) = Some (str ''!'', [])
   \<and> getAgent exampleServices [] = None
   \<and> tryToParseAgent exampleServices (drop 2 (str ''/ ! /foo'')) (str ''/ ! /foo'') 2 (Position 1 3)
        [ChatRequestSlashCommandPart (OffsetRange 0 4) (EditorRange 1 1 1 5) (SlashData (str ''foo'') [])]
       = None
   \<and> parseChatRequest exampleServices [] (str ''/ ! /foo'') =
       Inr (ParsedChatRequest
              [ChatRequestSlashCommandPart (OffsetRange 0 4) (EditorRange 1 1 1 5) (SlashData (str ''foo'') []),
               ChatRequestTextPart (OffsetRange 4 8) (EditorRange 1 5 1 9) (str ''/foo'')]
              (str ''/ ! /foo''))
   \<and> \<not> coveredByText
         [ChatRequestSlashCommandPart (OffsetRange 0 4) (EditorRange 1 1 1 5) (SlashData (str ''foo'') []),
          ChatRequestTextPart (OffsetRange 4 8) (EditorRange 1 5 1 9) (str ''/foo'') :: nat part] 2"
  by code_simp

end
